theory Spec2Isabelle
  imports Main "HOL-Library.Sublist"
begin

section \<open>JavaScript strings\<close>

text \<open>
  The plugin (\<^verbatim>\<open>main.ts\<close>) works on JavaScript strings: sequences of UTF-16 code units.
  A string is modelled as the list of its code units, so that \<^verbatim>\<open>length\<close>, the regular
  expression classes \<^verbatim>\<open>\s\<close>, \<^verbatim>\<open>\S\<close>, \<^verbatim>\<open>.\<close> and the icons of the catalogues (most of
  them surrogate pairs) count what the source counts.  ASCII literals are written
  \<open>asc ''...''\<close>.
\<close>

type_synonym jsstring = "nat list"

definition asc :: "string \<Rightarrow> jsstring" where
  "asc s = map of_char s"

definition nl :: jsstring where
  "nl = [10]"

datatype error = RangeError | TypeError

text \<open>
  \<^verbatim>\<open>WhiteSpace\<close> and \<^verbatim>\<open>LineTerminator\<close> of ECMAScript: what \<^verbatim>\<open>trim()\<close> strips and what
  \<^verbatim>\<open>\s\<close> matches.
\<close>

definition isSpace :: "nat \<Rightarrow> bool" where
  "isSpace c \<longleftrightarrow>
     c = 9 \<or> c = 10 \<or> c = 11 \<or> c = 12 \<or> c = 13 \<or> c = 32 \<or> c = 0xA0 \<or> c = 0x1680 \<or>
     (0x2000 \<le> c \<and> c \<le> 0x200A) \<or> c = 0x2028 \<or> c = 0x2029 \<or> c = 0x202F \<or>
     c = 0x205F \<or> c = 0x3000 \<or> c = 0xFEFF"

definition isLineTerminator :: "nat \<Rightarrow> bool" where
  "isLineTerminator c \<longleftrightarrow> c = 10 \<or> c = 13 \<or> c = 0x2028 \<or> c = 0x2029"

definition trim :: "jsstring \<Rightarrow> jsstring" where
  "trim s = rev (dropWhile isSpace (rev (dropWhile isSpace s)))"

definition startsWith :: "jsstring \<Rightarrow> jsstring \<Rightarrow> bool" where
  "startsWith s p = prefix p s"

definition endsWith :: "jsstring \<Rightarrow> jsstring \<Rightarrow> bool" where
  "endsWith s p = suffix p s"

text \<open>\<^verbatim>\<open>s.includes(p)\<close>: \<open>p\<close> occurs in \<open>s\<close> as a contiguous substring.\<close>

fun includes_str :: "jsstring \<Rightarrow> jsstring \<Rightarrow> bool" where
  "includes_str [] p = (p = [])"
| "includes_str (c # cs) p = (prefix p (c # cs) \<or> includes_str cs p)"

text \<open>
  \<^verbatim>\<open>s.split(sep)\<close> for a one-unit separator: never empty, \<^verbatim>\<open>''.split(sep)\<close> is \<^verbatim>\<open>['']\<close>.
\<close>

fun split :: "nat \<Rightarrow> jsstring \<Rightarrow> jsstring list" where
  "split sep [] = [[]]"
| "split sep (c # cs) =
     (if c = sep then [] # split sep cs
      else (case split sep cs of l # ls \<Rightarrow> (c # l) # ls | [] \<Rightarrow> [[c]]))"

text \<open>\<^verbatim>\<open>lines.join(sep)\<close>.\<close>

fun join :: "nat \<Rightarrow> jsstring list \<Rightarrow> jsstring" where
  "join sep [] = []"
| "join sep [l] = l"
| "join sep (l # ls) = l @ sep # join sep ls"

text \<open>
  \<^verbatim>\<open>s.repeat(n)\<close> raises a \<^verbatim>\<open>RangeError\<close> on a negative count.  (The engines raise the same
  error when the result would exceed their maximal string length; in \<^verbatim>\<open>starString\<close> below
  such a count is above 5, where the second \<^verbatim>\<open>repeat\<close> raises it in any case.)
\<close>

definition repeat :: "jsstring \<Rightarrow> int \<Rightarrow> error + jsstring" where
  "repeat s n = (if n < 0 then Inl RangeError else Inr (concat (replicate (nat n) s)))"

section \<open>Regular expressions\<close>

text \<open>
  The regular expressions of the source are sequences of one-unit classes, each taken
  once or under \<^verbatim>\<open>+\<close>, \<^verbatim>\<open>+?\<close>, \<^verbatim>\<open>*\<close>, \<^verbatim>\<open>*?\<close>, with capture groups, one optional group and
  the anchors \<^verbatim>\<open>^\<close> and \<^verbatim>\<open>$\<close> (no flags but \<^verbatim>\<open>g\<close>).  They are matched as ECMAScript does:
  by backtracking, a greedy quantifier trying the longer run first and a lazy one the
  shorter, at the leftmost start position that succeeds.
\<close>

datatype cls = Is nat | IsNot nat | Space | NonSpace | Dot

fun cls_ok :: "cls \<Rightarrow> nat \<Rightarrow> bool" where
  "cls_ok (Is a) c = (c = a)"
| "cls_ok (IsNot a) c = (c \<noteq> a)"
| "cls_ok Space c = isSpace c"
| "cls_ok NonSpace c = (\<not> isSpace c)"
| "cls_ok Dot c = (\<not> isLineTerminator c)"

datatype item =
    One cls | Plus cls | Star cls | PlusLazy cls | StarLazy cls
  | Open nat | Close nat | Opt "item list" | Bol | Eol

fun weight :: "item \<Rightarrow> nat" where
  "weight (Opt b) = Suc (sum_list (map weight b))"
| "weight _ = 1"

text \<open>
  The state of a match: where each open group started, and the spans of the groups
  closed so far.
\<close>

record mstate =
  starts :: "(nat \<times> nat) list"
  spans :: "(nat \<times> nat \<times> nat) list"

definition open_group :: "nat \<Rightarrow> nat \<Rightarrow> mstate \<Rightarrow> mstate" where
  "open_group n i st = st\<lparr>starts := (n, i) # starts st\<rparr>"

definition close_group :: "nat \<Rightarrow> nat \<Rightarrow> mstate \<Rightarrow> mstate" where
  "close_group n i st =
     (case map_of (starts st) n of
        None \<Rightarrow> st
      | Some a \<Rightarrow> st\<lparr>spans := (n, a, i) # spans st\<rparr>)"

text \<open>
  \<open>rx_match rs i s st\<close> matches the items \<open>rs\<close> against \<open>s\<close>, the rest of the
  subject from position \<open>i\<close> on, and gives the end position and the groups of the first
  successful alternative.
\<close>

function (sequential) rx_match :: "item list \<Rightarrow> nat \<Rightarrow> jsstring \<Rightarrow> mstate \<Rightarrow> (nat \<times> mstate) option" where
  "rx_match [] i s st = Some (i, st)"
| "rx_match (One k # rs) i [] st = None"
| "rx_match (One k # rs) i (c # cs) st =
     (if cls_ok k c then rx_match rs (Suc i) cs st else None)"
| "rx_match (Plus k # rs) i [] st = None"
| "rx_match (Plus k # rs) i (c # cs) st =
     (if cls_ok k c then rx_match (Star k # rs) (Suc i) cs st else None)"
| "rx_match (Star k # rs) i [] st = rx_match rs i [] st"
| "rx_match (Star k # rs) i (c # cs) st =
     (if cls_ok k c then
        (case rx_match (Star k # rs) (Suc i) cs st of
           Some r \<Rightarrow> Some r
         | None \<Rightarrow> rx_match rs i (c # cs) st)
      else rx_match rs i (c # cs) st)"
| "rx_match (PlusLazy k # rs) i [] st = None"
| "rx_match (PlusLazy k # rs) i (c # cs) st =
     (if cls_ok k c then rx_match (StarLazy k # rs) (Suc i) cs st else None)"
| "rx_match (StarLazy k # rs) i [] st = rx_match rs i [] st"
| "rx_match (StarLazy k # rs) i (c # cs) st =
     (case rx_match rs i (c # cs) st of
        Some r \<Rightarrow> Some r
      | None \<Rightarrow> if cls_ok k c then rx_match (StarLazy k # rs) (Suc i) cs st else None)"
| "rx_match (Open n # rs) i s st = rx_match rs i s (open_group n i st)"
| "rx_match (Close n # rs) i s st = rx_match rs i s (close_group n i st)"
| "rx_match (Opt b # rs) i s st =
     (case rx_match (b @ rs) i s st of
        Some r \<Rightarrow> Some r
      | None \<Rightarrow> rx_match rs i s st)"
| "rx_match (Bol # rs) i s st = (if i = 0 then rx_match rs i s st else None)"
| "rx_match (Eol # rs) i s st = (if s = [] then rx_match rs i s st else None)"
  by pat_completeness auto
termination
  by (relation "measures [\<lambda>(rs, i, s, st). sum_list (map weight rs), \<lambda>(rs, i, s, st). length s]") auto

text \<open>The leftmost start position at which the items match.\<close>

definition no_groups :: mstate where
  "no_groups = \<lparr>starts = [], spans = []\<rparr>"

fun rx_search :: "item list \<Rightarrow> nat \<Rightarrow> jsstring \<Rightarrow> (nat \<times> nat \<times> mstate) option" where
  "rx_search rs i [] =
     (case rx_match rs i [] no_groups of
        Some (j, st) \<Rightarrow> Some (i, j, st)
      | None \<Rightarrow> None)"
| "rx_search rs i (c # cs) =
     (case rx_match rs i (c # cs) no_groups of
        Some (j, st) \<Rightarrow> Some (i, j, st)
      | None \<Rightarrow> rx_search rs (Suc i) cs)"

text \<open>
  The result of \<^verbatim>\<open>s.match(re)\<close> for a regular expression without the \<^verbatim>\<open>g\<close> flag: the
  matched text and the text of each group that took part (\<^verbatim>\<open>m[n]\<close> is \<^verbatim>\<open>undefined\<close>
  otherwise), or \<^verbatim>\<open>null\<close>.
\<close>

record rx_result =
  matched :: jsstring
  groups :: "nat \<Rightarrow> jsstring option"

definition slice :: "jsstring \<Rightarrow> nat \<Rightarrow> nat \<Rightarrow> jsstring" where
  "slice s a b = take (b - a) (drop a s)"

definition match :: "jsstring \<Rightarrow> item list \<Rightarrow> rx_result option" where
  "match s rs =
     (case rx_search rs 0 s of
        None \<Rightarrow> None
      | Some (i, j, st) \<Rightarrow>
          Some \<lparr>matched = slice s i j,
                groups = (\<lambda>n. map_option (\<lambda>(a, b). slice s a b) (map_of (spans st) n))\<rparr>)"

text \<open>\<^verbatim>\<open>re.test(s)\<close>.\<close>

definition test :: "item list \<Rightarrow> jsstring \<Rightarrow> bool" where
  "test rs s = (rx_search rs 0 s \<noteq> None)"

text \<open>
  \<^verbatim>\<open>s.replace(re, r)\<close> for a regular expression without the \<^verbatim>\<open>g\<close> flag and a replacement
  text \<open>r\<close> without \<^verbatim>\<open>$\<close> (none of the source's replacement texts has one): the first
  match is replaced, and a subject without a match is returned as it is.
\<close>

definition replace :: "jsstring \<Rightarrow> item list \<Rightarrow> jsstring \<Rightarrow> jsstring" where
  "replace s rs r =
     (case rx_search rs 0 s of
        None \<Rightarrow> s
      | Some (i, j, st) \<Rightarrow> take i s @ r @ drop j s)"

text \<open>A literal text as a regular expression.\<close>

definition lit :: "jsstring \<Rightarrow> item list" where
  "lit p = map (\<lambda>c. One (Is c)) p"

section \<open>The catalogues\<close>

record info =
  key :: jsstring
  label :: jsstring
  icon :: jsstring

definition TYPE_OPTIONS :: "info list" where
  "TYPE_OPTIONS =
    [\<lparr>key = asc ''plain-note'', label = asc ''Obsidian Note'', icon = [0xD83D, 0xDCC4]\<rparr>,
     \<lparr>key = asc ''web-page'', label = asc ''Web Page'', icon = [0xD83C, 0xDF10]\<rparr>,
     \<lparr>key = asc ''video'', label = asc ''Video'', icon = [0xD83C, 0xDFA5]\<rparr>,
     \<lparr>key = asc ''course'', label = asc ''Course'', icon = [0xD83C, 0xDF93]\<rparr>,
     \<lparr>key = asc ''textbook'', label = asc ''Textbook'', icon = [0xD83D, 0xDCDA]\<rparr>,
     \<lparr>key = asc ''repository'', label = asc ''Repository'', icon = [0xD83D, 0xDCBB]\<rparr>,
     \<lparr>key = asc ''other'', label = asc ''Other'', icon = [0xD83D, 0xDCE6]\<rparr>]"

definition STATUS_ORDER :: "info list" where
  "STATUS_ORDER =
    [\<lparr>key = asc ''saved'', label = asc ''Saved/Unprocessed'', icon = [0xD83D, 0xDCE5]\<rparr>,
     \<lparr>key = asc ''skimmed'', label = asc ''Skimmed'', icon = [0xD83D, 0xDD0D]\<rparr>,
     \<lparr>key = asc ''in-progress'', label = asc ''In Progress'', icon = [0xD83D, 0xDD04]\<rparr>,
     \<lparr>key = asc ''to-review'', label = asc ''To Review'', icon = [0x23F3]\<rparr>,
     \<lparr>key = asc ''completed'', label = asc ''Completed'', icon = [0x2705]\<rparr>,
     \<lparr>key = asc ''maybe-useful'', label = asc ''Maybe Useful'', icon = [0xD83E, 0xDD14]\<rparr>,
     \<lparr>key = asc ''needs-review'', label = asc ''Needs Review'', icon = [0x2757]\<rparr>]"

text \<open>\<^verbatim>\<open>STATUS_ORDER.find(s => s.key === key) || STATUS_ORDER[0]\<close>, and the same for types.\<close>

definition getStatusInfo :: "jsstring \<Rightarrow> info" where
  "getStatusInfo k =
     (case find (\<lambda>s. key s = k) STATUS_ORDER of Some s \<Rightarrow> s | None \<Rightarrow> hd STATUS_ORDER)"

definition getTypeInfo :: "jsstring \<Rightarrow> info" where
  "getTypeInfo k =
     (case find (\<lambda>t. key t = k) TYPE_OPTIONS of Some t \<Rightarrow> t | None \<Rightarrow> hd TYPE_OPTIONS)"

section \<open>Encoding a reference: \<^verbatim>\<open>starString\<close> and \<^verbatim>\<open>buildLine\<close>\<close>

record ReferenceData =
  type :: jsstring
  title :: jsstring
  url :: jsstring
  status :: jsstring
  stars :: int

text \<open>
  What \<^verbatim>\<open>this.app.vault.getAbstractFileByPath\<close> gives: nothing, a folder, or a file
  (\<^verbatim>\<open>TFile\<close>) with its \<^verbatim>\<open>basename\<close>.  The vault is a parameter of the model.
\<close>

datatype TAbstractFile = TFile (basename: jsstring) | TFolder

type_synonym vault = "jsstring \<Rightarrow> TAbstractFile option"

definition star_filled :: nat where "star_filled = 0x2605"
definition star_empty :: nat where "star_empty = 0x2606"

definition starString :: "int \<Rightarrow> error + jsstring" where
  "starString n =
     (if n = 0 then Inr (0x26AA # asc '' Not Rated'')
      else (case repeat [star_filled] n of
              Inl e \<Rightarrow> Inl e
            | Inr a \<Rightarrow> (case repeat [star_empty] (5 - n) of
                          Inl e \<Rightarrow> Inl e
                        | Inr b \<Rightarrow> Inr (a @ b))))"

text \<open>The regular expression \<^verbatim>\<open>/\.md$/\<close>.\<close>

definition rx_md :: "item list" where
  "rx_md = lit (asc ''.md'') @ [Eol]"

definition buildLine :: "vault \<Rightarrow> ReferenceData \<Rightarrow> error + jsstring" where
  "buildLine v d =
     (let typeInfo = getTypeInfo (type d);
          statusInfo = getStatusInfo (status d);
          mdlink = asc ''['' @ title d @ asc ''](''  @ url d @ asc '')'';
          link =
            (if type d = asc ''plain-note'' \<and> url d \<noteq> [] then
               (case v (url d) of
                  Some (TFile noteName) \<Rightarrow>
                    (let linkPath = replace (url d) rx_md [] in
                     if trim (title d) = noteName then asc ''[['' @ linkPath @ asc '']]''
                     else asc ''[['' @ linkPath @ asc ''|'' @ title d @ asc '']]'')
                | _ \<Rightarrow> mdlink)
             else if url d \<noteq> [] then mdlink else title d)
      in case starString (stars d) of
           Inl e \<Rightarrow> Inl e
         | Inr rating \<Rightarrow>
             Inr (asc ''### '' @ link @ nl @
                  icon typeInfo @ asc '' '' @ label typeInfo @ asc '' | '' @
                  icon statusInfo @ asc '' **'' @ label statusInfo @ asc ''** | '' @ rating))"

section \<open>The editor\<close>

text \<open>
  The document of Obsidian's \<^verbatim>\<open>Editor\<close> (a CodeMirror document) is a non-empty sequence
  of lines without \<^verbatim>\<open>\n\<close> or \<^verbatim>\<open>\r\<close>; \<^verbatim>\<open>getValue()\<close> joins them with \<^verbatim>\<open>\n\<close>, and a text
  given to the editor is split into lines at \<^verbatim>\<open>\r\n\<close>, \<^verbatim>\<open>\r\<close> and \<^verbatim>\<open>\n\<close>.  A
  position \<^verbatim>\<open>{line, ch}\<close> beyond the document is clipped to its end and a \<^verbatim>\<open>ch\<close> beyond a
  line to the end of that line (\<^verbatim>\<open>replaceLine\<close> relies on it with
  \<^verbatim>\<open>ch: Number.MAX_SAFE_INTEGER\<close>).  The cursor line \<^verbatim>\<open>editor.getCursor().line\<close> is an
  argument of the commands; it is always a line of the document.
\<close>

type_synonym document = "jsstring list"

definition wf_doc :: "document \<Rightarrow> bool" where
  "wf_doc doc \<longleftrightarrow> doc \<noteq> [] \<and> list_all (\<lambda>l. 10 \<notin> set l \<and> 13 \<notin> set l) doc"

definition getValue :: "document \<Rightarrow> jsstring" where
  "getValue doc = join 10 doc"

fun split_lines :: "jsstring \<Rightarrow> jsstring list" where
  "split_lines [] = [[]]"
| "split_lines [c] = (if c = 10 \<or> c = 13 then [[], []] else [[c]])"
| "split_lines (c # d # ds) =
     (if c = 13 \<and> d = 10 then [] # split_lines ds
      else if c = 10 \<or> c = 13 then [] # split_lines (d # ds)
      else (case split_lines (d # ds) of l # ls \<Rightarrow> (c # l) # ls | [] \<Rightarrow> [[c]]))"

definition setValue :: "jsstring \<Rightarrow> document" where
  "setValue s = split_lines s"

definition lastLine :: "document \<Rightarrow> nat" where
  "lastLine doc = length doc - 1"

definition getLine :: "document \<Rightarrow> nat \<Rightarrow> jsstring option" where
  "getLine doc n = (if n < length doc then Some (doc ! n) else None)"

definition posToOffset :: "document \<Rightarrow> nat \<times> nat \<Rightarrow> nat" where
  "posToOffset doc pos =
     (case pos of (line, ch) \<Rightarrow>
        if line \<ge> length doc then length (getValue doc)
        else sum_list (map (\<lambda>l. Suc (length l)) (take line doc)) + min ch (length (doc ! line)))"

definition replaceRange :: "jsstring \<Rightarrow> nat \<times> nat \<Rightarrow> nat \<times> nat \<Rightarrow> document \<Rightarrow> document" where
  "replaceRange text from to doc =
     setValue (take (posToOffset doc from) (getValue doc) @ text @
               drop (posToOffset doc to) (getValue doc))"

definition setLine :: "nat \<Rightarrow> jsstring \<Rightarrow> document \<Rightarrow> document" where
  "setLine n text doc =
     (if n < length doc then replaceRange text (n, 0) (n, length (doc ! n)) doc else doc)"

text \<open>The notices of the three commands.\<close>

datatype notice = NotMarkdown | PlaceCursor | ReferenceDeleted | StatusTo jsstring

text \<open>\<^verbatim>\<open>xs.findIndex(P)\<close>: the first index whose element satisfies \<open>P\<close>, or \<open>-1\<close>.\<close>

fun findIndex :: "('a \<Rightarrow> bool) \<Rightarrow> 'a list \<Rightarrow> int" where
  "findIndex P [] = - 1"
| "findIndex P (x # xs) =
     (if P x then 0 else (let r = findIndex P xs in if r < 0 then - 1 else r + 1))"

section \<open>The commands \<^verbatim>\<open>delete-reference\<close> and \<^verbatim>\<open>cycle-ref-status\<close>\<close>

text \<open>
  Each \<^verbatim>\<open>editorCallback\<close> takes whether the context is a \<^verbatim>\<open>MarkdownView\<close>, the cursor line
  and the document, and gives the document it leaves and the notice it shows.  A cursor
  line outside the document (which the editor never reports) leaves the document alone.
\<close>

definition delete_reference :: "bool \<Rightarrow> nat \<Rightarrow> document \<Rightarrow> document \<times> notice" where
  "delete_reference md lineNum doc =
     (if \<not> md then (doc, NotMarkdown)
      else (case getLine doc lineNum of
              None \<Rightarrow> (doc, PlaceCursor)
            | Some line \<Rightarrow>
                if \<not> startsWith (trim line) (asc ''###'') then (doc, PlaceCursor)
                else (replaceRange [] (lineNum, 0) (lineNum + 1, 0) doc, ReferenceDeleted)))"

text \<open>The regular expression \<^verbatim>\<open>/\|\s+\S+\s+\*\*.+?\*\*/\<close>.\<close>

definition rx_status_span :: "item list" where
  "rx_status_span =
     [One (Is 124), Plus Space, Plus NonSpace, Plus Space, One (Is 42), One (Is 42),
      PlusLazy Dot, One (Is 42), One (Is 42)]"

text \<open>The template \<^verbatim>\<open>| ${next.icon} **${next.label}**\<close>.\<close>

definition status_span :: "info \<Rightarrow> jsstring" where
  "status_span s = asc ''| '' @ icon s @ asc '' **'' @ label s @ asc ''**''"

text \<open>
  Lines 123 to 125 of the callback, on the cursor line: the index of the first status
  whose label occurs between \<^verbatim>\<open>**\<close> in the line, the next status (both operands of \<^verbatim>\<open>%\<close>
  are non-negative, so it is \<open>mod\<close>), and the line with its first status span replaced.
\<close>

definition cycle_rewrite :: "jsstring \<Rightarrow> info \<times> jsstring" where
  "cycle_rewrite line =
     (let currIdx = findIndex (\<lambda>s. includes_str line (asc ''**'' @ label s @ asc ''**'')) STATUS_ORDER;
          next = STATUS_ORDER ! nat ((currIdx + 1) mod int (length STATUS_ORDER))
      in (next, replace line rx_status_span (status_span next)))"

definition cycle_ref_status :: "bool \<Rightarrow> nat \<Rightarrow> document \<Rightarrow> document \<times> notice" where
  "cycle_ref_status md lineNum doc =
     (if \<not> md then (doc, NotMarkdown)
      else (case getLine doc lineNum of
              None \<Rightarrow> (doc, PlaceCursor)
            | Some line \<Rightarrow>
                if \<not> startsWith (trim line) (asc ''###'') then (doc, PlaceCursor)
                else (case cycle_rewrite line of
                        (next, line') \<Rightarrow> (setLine lineNum line' doc, StatusTo (label next)))))"

section \<open>The command \<^verbatim>\<open>edit-reference\<close> and the form of \<^verbatim>\<open>ReferenceModal\<close>\<close>

text \<open>
  \<^verbatim>\<open>edit-reference\<close> opens the modal on the cursor line, or on the line above it when only
  that one starts with \<^verbatim>\<open>###\<close>: the result is the pair \<^verbatim>\<open>(editLine, initialLine)\<close>.
\<close>

definition edit_reference :: "bool \<Rightarrow> nat \<Rightarrow> document \<Rightarrow> notice + nat \<times> jsstring" where
  "edit_reference md lineNum0 doc =
     (if \<not> md then Inl NotMarkdown
      else (case getLine doc lineNum0 of
              None \<Rightarrow> Inl PlaceCursor
            | Some line0 \<Rightarrow>
                (let (lineNum, line) =
                   (if \<not> startsWith (trim line0) (asc ''###'') \<and> lineNum0 > 0 then
                      (case getLine doc (lineNum0 - 1) of
                         None \<Rightarrow> (lineNum0, line0)
                       | Some prevLine \<Rightarrow>
                           if startsWith (trim prevLine) (asc ''###'') then (lineNum0 - 1, prevLine)
                           else (lineNum0, line0))
                    else (lineNum0, line0))
                 in if \<not> startsWith (trim line) (asc ''###'') then Inl PlaceCursor
                    else Inr (lineNum, line))))"

text \<open>
  The state of the form: the values of the two selects and the two inputs, and
  \<^verbatim>\<open>currentRating\<close>.  When the modal opens, a select shows its first option, the inputs
  are empty and the rating is 0; \<^verbatim>\<open>setupUrlTypeDetection\<close>, called before the prefill,
  finds the URL input empty and changes nothing.  (A text input drops line breaks from a
  value it is given; a line of the editor has none, and the model leaves the value as it
  is.)
\<close>

record form =
  typeSelect :: jsstring
  titleInput :: jsstring
  urlInput :: jsstring
  statusSelect :: jsstring
  currentRating :: int

definition initial_form :: form where
  "initial_form =
     \<lparr>typeSelect = key (hd TYPE_OPTIONS), titleInput = [], urlInput = [],
      statusSelect = key (hd STATUS_ORDER), currentRating = 0\<rparr>"

text \<open>
  \<^verbatim>\<open>/\[\[([^\]]+)(?:\|([^\]]+))?\]\]/\<close>, \<^verbatim>\<open>/\[([^\]]+)\]\((.*?)\)/\<close>, \<^verbatim>\<open>/^###\s*/\<close>,
  \<^verbatim>\<open>/^(\S+)/\<close> and \<^verbatim>\<open>/\*\*([^*]+)\*\*/\<close>.
\<close>

definition rx_internal_link :: "item list" where
  "rx_internal_link =
     [One (Is 91), One (Is 91), Open 1, Plus (IsNot 93), Close 1,
      Opt [One (Is 124), Open 2, Plus (IsNot 93), Close 2], One (Is 93), One (Is 93)]"

definition rx_link :: "item list" where
  "rx_link =
     [One (Is 91), Open 1, Plus (IsNot 93), Close 1, One (Is 93), One (Is 40),
      Open 2, StarLazy Dot, Close 2, One (Is 41)]"

definition rx_heading_marker :: "item list" where
  "rx_heading_marker = [Bol, One (Is 35), One (Is 35), One (Is 35), Star Space]"

definition rx_type_icon :: "item list" where
  "rx_type_icon = [Bol, Open 1, Plus NonSpace, Close 1]"

definition rx_status_label :: "item list" where
  "rx_status_label =
     [One (Is 42), One (Is 42), Open 1, Plus (IsNot 42), Close 1, One (Is 42), One (Is 42)]"

text \<open>
  \<^verbatim>\<open>parts[i]\<close> is \<^verbatim>\<open>undefined\<close> beyond the array, and a method call on \<^verbatim>\<open>undefined\<close> raises a
  \<^verbatim>\<open>TypeError\<close>; so does one on the \<^verbatim>\<open>undefined\<close> of a group that took no part in a match.
\<close>

definition at_index :: "'a list \<Rightarrow> nat \<Rightarrow> 'a option" where
  "at_index xs i = (if i < length xs then Some (xs ! i) else None)"

definition bind :: "error + 'a \<Rightarrow> ('a \<Rightarrow> error + 'b) \<Rightarrow> error + 'b" where
  "bind m f = (case m of Inl e \<Rightarrow> Inl e | Inr x \<Rightarrow> f x)"

text \<open>\<^verbatim>\<open>a || b\<close> on strings: \<open>a\<close> unless it is \<^verbatim>\<open>undefined\<close> or empty.\<close>

definition or_else :: "jsstring option \<Rightarrow> jsstring \<Rightarrow> jsstring" where
  "or_else a b = (case a of None \<Rightarrow> b | Some x \<Rightarrow> if x = [] then b else x)"

definition prefill_title :: "jsstring list \<Rightarrow> form \<Rightarrow> error + form" where
  "prefill_title parts f =
     (if length parts > 0 then
        (case at_index parts 0 of
           None \<Rightarrow> Inl TypeError
         | Some firstPart \<Rightarrow>
             (case match firstPart rx_internal_link of
                Some internalLinkMatch \<Rightarrow>
                  (case groups internalLinkMatch 1 of
                     None \<Rightarrow> Inl TypeError
                   | Some linkPath \<Rightarrow>
                       (let linkTitle =
                              or_else (groups internalLinkMatch 2)
                                (or_else (Some (last (split 47 linkPath))) linkPath)
                        in Inr (f\<lparr>titleInput := linkTitle,
                                   urlInput := linkPath @
                                     (if endsWith linkPath (asc ''.md'') then [] else asc ''.md'')\<rparr>)))
              | None \<Rightarrow>
                  (case match firstPart rx_link of
                     Some linkMatch \<Rightarrow>
                       Inr (f\<lparr>titleInput :=
                                  (case groups linkMatch 1 of None \<Rightarrow> asc ''undefined'' | Some t \<Rightarrow> t),
                                urlInput :=
                                  (case groups linkMatch 2 of None \<Rightarrow> asc ''undefined'' | Some u \<Rightarrow> u)\<rparr>)
                   | None \<Rightarrow> Inr (f\<lparr>titleInput := replace firstPart rx_heading_marker []\<rparr>))))
      else Inr f)"

definition prefill_type :: "jsstring list \<Rightarrow> form \<Rightarrow> error + form" where
  "prefill_type parts f =
     (if length parts > 1 then
        (case at_index parts 1 of
           None \<Rightarrow> Inl TypeError
         | Some typePart \<Rightarrow>
             (case match typePart rx_type_icon of
                None \<Rightarrow> Inr f
              | Some typeIconMatch \<Rightarrow>
                  (case find (\<lambda>t. Some (icon t) = groups typeIconMatch 1) TYPE_OPTIONS of
                     None \<Rightarrow> Inr f
                   | Some typeOption \<Rightarrow> Inr (f\<lparr>typeSelect := key typeOption\<rparr>))))
      else Inr f)"

definition prefill_status :: "jsstring list \<Rightarrow> form \<Rightarrow> error + form" where
  "prefill_status parts f =
     (if length parts > 2 then
        (case at_index parts 2 of
           None \<Rightarrow> Inl TypeError
         | Some statusPart \<Rightarrow>
             (case match statusPart rx_status_label of
                None \<Rightarrow> Inr f
              | Some statusLabelMatch \<Rightarrow>
                  (case find (\<lambda>s. Some (label s) = groups statusLabelMatch 1) STATUS_ORDER of
                     None \<Rightarrow> Inr f
                   | Some statusOption \<Rightarrow> Inr (f\<lparr>statusSelect := key statusOption\<rparr>))))
      else Inr f)"

text \<open>
  \<^verbatim>\<open>(ratingPart.match(/\<star>/g) || []).length\<close>, with the filled star for \<open>\<star>\<close>: the number
  of filled stars in the part.
\<close>

definition prefill_rating :: "jsstring list \<Rightarrow> form \<Rightarrow> error + form" where
  "prefill_rating parts f =
     (if length parts > 3 then
        (case at_index parts 3 of
           None \<Rightarrow> Inl TypeError
         | Some ratingPart \<Rightarrow>
             (let starCount = int (length (filter (\<lambda>c. c = star_filled) ratingPart))
              in Inr (f\<lparr>currentRating := starCount\<rparr>)))
      else Inr f)"

text \<open>
  The prefill of \<^verbatim>\<open>onOpen\<close> (lines 434 to 500).  \<^verbatim>\<open>initialLine\<close> counts as absent when it
  is \<^verbatim>\<open>undefined\<close> or empty; the type is then set to \<^verbatim>\<open>plain-note\<close>.
\<close>

definition onOpen :: "jsstring option \<Rightarrow> error + form" where
  "onOpen initialLine =
     (case initialLine of
        None \<Rightarrow> Inr (initial_form\<lparr>typeSelect := asc ''plain-note''\<rparr>)
      | Some line \<Rightarrow>
          if line = [] then Inr (initial_form\<lparr>typeSelect := asc ''plain-note''\<rparr>)
          else (let parts = map trim (split 124 line)
                in bind (prefill_title parts initial_form) (\<lambda>f1.
                   bind (prefill_type parts f1) (\<lambda>f2.
                   bind (prefill_status parts f2) (\<lambda>f3.
                   prefill_rating parts f3)))))"

text \<open>The record that \<^verbatim>\<open>submit.onclick\<close> builds from the form.\<close>

definition submit_data :: "form \<Rightarrow> ReferenceData" where
  "submit_data f =
     \<lparr>type = typeSelect f, title = trim (titleInput f), url = trim (urlInput f),
      status = statusSelect f, stars = currentRating f\<rparr>"

section \<open>Inserting a reference: \<^verbatim>\<open>insertLine\<close>\<close>

text \<open>The regular expression \<^verbatim>\<open>/## References/\<close>.\<close>

definition rx_references :: "item list" where
  "rx_references = lit (asc ''## References'')"

text \<open>The \<^verbatim>\<open>while\<close> loop of \<^verbatim>\<open>insertLine\<close> (lines 946 to 952).\<close>

function insertPos_loop :: "jsstring list \<Rightarrow> nat \<Rightarrow> nat" where
  "insertPos_loop lines insertPos =
     (if insertPos < length lines \<and> startsWith (lines ! insertPos) (asc ''###'') then
        (let p = insertPos + 1 in
         if p < length lines \<and> \<not> startsWith (lines ! p) (asc ''###'') \<and> trim (lines ! p) \<noteq> []
         then insertPos_loop lines (p + 1)
         else insertPos_loop lines p)
      else insertPos)"
  by pat_completeness auto
termination
  by (relation "measure (\<lambda>(lines, insertPos). length lines - insertPos)") auto

text \<open>
  \<^verbatim>\<open>insertLine\<close>.  When \<^verbatim>\<open>buildLine\<close> raises, the result is the error (the section heading
  may have been appended to the document by then).
\<close>

definition insertLine :: "vault \<Rightarrow> ReferenceData \<Rightarrow> document \<Rightarrow> error + document" where
  "insertLine v d editor0 =
     (let editor1 =
            (if \<not> test rx_references (getValue editor0)
             then replaceRange (nl @ asc ''## References'' @ nl)
                    (lastLine editor0 + 1, 0) (lastLine editor0 + 1, 0) editor0
             else editor0);
          lines = split 10 (getValue editor1);
          headerIdx = findIndex (\<lambda>l. test rx_references l) lines;
          insertPos = insertPos_loop lines (nat (headerIdx + 1))
      in case buildLine v d of
           Inl e \<Rightarrow> Inl e
         | Inr span \<Rightarrow>
             (let refLines = split 10 span
              in Inr (setValue (join 10 (take insertPos lines @ refLines @ drop insertPos lines)))))"

text \<open>
  For the statements about \<^verbatim>\<open>insertLine\<close>: the lines of a sequence of records, each given
  as its header line and its detail line.
\<close>

definition span_lines :: "(jsstring \<times> jsstring) list \<Rightarrow> jsstring list" where
  "span_lines ps = concat (map (\<lambda>(h, dl). [h, dl]) ps)"

section \<open>Examples\<close>

text \<open>
  A vault without notes, the record of the specification's scenario with its header and
  detail lines, the detail line of the status scenario before and after the advance, a
  detail line with the unknown label \<^verbatim>\<open>Done\<close> and what the rewrite makes of it, a
  hand-written line in the one-line layout whose type part has an unknown icon, whose
  status part has an unknown label and whose rating part has no star (its title holds the
  icon of a type and the label of a status), one with seven filled stars, two more records
  with their lines, notes that hold a record under the section heading, a line in the
  one-line layout with the label \<^verbatim>\<open>Done\<close> before and after the advance, and a note with
  a blank line between two records.
\<close>

definition no_vault :: vault where
  "no_vault = (\<lambda>p. None)"

definition intro_to_rust :: ReferenceData where
  "intro_to_rust =
     \<lparr>type = asc ''video'', title = asc ''Intro to Rust'', url = asc ''https://youtu.be/abc'',
      status = asc ''in-progress'', stars = 3\<rparr>"

definition intro_header :: jsstring where
  "intro_header = asc ''### [Intro to Rust](https://youtu.be/abc)''"

definition intro_detail :: jsstring where
  "intro_detail =
     [0xD83C, 0xDFA5] @ asc '' Video | '' @ [0xD83D, 0xDD04] @ asc '' **In Progress** | '' @
     [0x2605, 0x2605, 0x2605, 0x2606, 0x2606]"

definition completed_detail :: jsstring where
  "completed_detail =
     [0xD83C, 0xDFA5] @ asc '' Video | '' @ [0x2705] @ asc '' **Completed** | '' @
     [0x2605, 0x2605, 0x2605, 0x2606, 0x2606]"

definition maybe_useful_detail :: jsstring where
  "maybe_useful_detail =
     [0xD83C, 0xDFA5] @ asc '' Video | '' @ [0xD83E, 0xDD14] @ asc '' **Maybe Useful** | '' @
     [0x2605, 0x2605, 0x2605, 0x2606, 0x2606]"

definition done_detail :: jsstring where
  "done_detail =
     [0xD83C, 0xDFA5] @ asc '' Video | '' @ [0x2705] @ asc '' **Done** | '' @
     [0x2605, 0x2605, 0x2605, 0x2606, 0x2606]"

definition saved_detail :: jsstring where
  "saved_detail =
     [0xD83C, 0xDFA5] @ asc '' Video | '' @ [0xD83D, 0xDCE5] @ asc '' **Saved/Unprocessed** | '' @
     [0x2605, 0x2605, 0x2605, 0x2606, 0x2606]"

definition fallback_line :: jsstring where
  "fallback_line =
     asc ''### Watch '' @ [0xD83C, 0xDFA5] @ asc '' **Completed** later | '' @ [0x2753] @
     asc '' Misc | '' @ [0x2705] @ asc '' **Done** | '' @ 0x26AA # asc '' Not Rated''"

definition seven_star_line :: jsstring where
  "seven_star_line =
     asc ''### [T](u) | '' @ [0xD83C, 0xDFA5] @ asc '' Video | '' @ [0x2705] @
     asc '' **Completed** | '' @
     [0x2605, 0x2605, 0x2605, 0x2605, 0x2605, 0x2605, 0x2605]"







definition intro_note :: document where
  "intro_note = [asc ''## References'', intro_header, intro_detail, asc ''Further reading'']"

definition completed_note :: document where
  "completed_note = [asc ''## References'', intro_header, completed_detail]"

definition done_note :: document where
  "done_note = [asc ''## References'', intro_header, done_detail]"

definition done_one_line :: jsstring where
  "done_one_line =
     asc ''### [T](u) | '' @ [0xD83C, 0xDFA5] @ asc '' Video | '' @ [0x2705] @ asc '' **Done** | '' @
     [0x2605, 0x2605, 0x2605, 0x2606, 0x2606]"

definition saved_one_line :: jsstring where
  "saved_one_line =
     asc ''### [T](u) | '' @ [0xD83C, 0xDFA5] @ asc '' Video | '' @ [0xD83D, 0xDCE5] @
     asc '' **Saved/Unprocessed** | '' @ [0x2605, 0x2605, 0x2605, 0x2606, 0x2606]"


section \<open>Evaluation\<close>

lemmas str_defs =
  asc_def nl_def trim_def startsWith_def endsWith_def isSpace_def isLineTerminator_def

lemmas cat_defs =
  TYPE_OPTIONS_def STATUS_ORDER_def getTypeInfo_def getStatusInfo_def star_filled_def
  star_empty_def

lemmas ed_defs =
  getLine_def replaceRange_def posToOffset_def getValue_def setValue_def setLine_def
  lastLine_def

lemmas rx_defs =
  match_def test_def replace_def no_groups_def open_group_def close_group_def slice_def lit_def

lemmas prefill_defs =
  onOpen_def bind_def prefill_title_def prefill_type_def prefill_status_def
  prefill_rating_def at_index_def initial_form_def or_else_def rx_internal_link_def
  rx_link_def rx_heading_marker_def rx_type_icon_def rx_status_label_def

section \<open>Substrings, \<^verbatim>\<open>split\<close> and \<^verbatim>\<open>join\<close>\<close>

lemma includes_str_iff: "includes_str s p \<longleftrightarrow> (\<exists>u v. s = u @ p @ v)"
proof (induction s)
  case Nil
  then show ?case by auto
next
  case (Cons c cs)
  show ?case
  proof
    assume "includes_str (c # cs) p"
    then consider "prefix p (c # cs)" | "includes_str cs p" by auto
    then show "\<exists>u v. c # cs = u @ p @ v"
    proof cases
      case 1
      then obtain v where "c # cs = p @ v" by (auto simp: prefix_def)
      then have "c # cs = [] @ p @ v" by simp
      then show ?thesis by blast
    next
      case 2
      with Cons.IH obtain u v where "cs = u @ p @ v" by blast
      then have "c # cs = (c # u) @ p @ v" by simp
      then show ?thesis by blast
    qed
  next
    assume "\<exists>u v. c # cs = u @ p @ v"
    then obtain u v where e: "c # cs = u @ p @ v" by blast
    show "includes_str (c # cs) p"
    proof (cases u)
      case Nil
      with e have "prefix p (c # cs)" by (simp add: prefix_def)
      then show ?thesis by simp
    next
      case (Cons a u')
      with e have "cs = u' @ p @ v" by simp
      with Cons.IH have "includes_str cs p" by blast
      then show ?thesis by simp
    qed
  qed
qed

lemma includes_str_trans:
  "includes_str a b \<Longrightarrow> includes_str b c \<Longrightarrow> includes_str a c"
proof -
  assume "includes_str a b" and "includes_str b c"
  then obtain u v u' v' where "a = u @ b @ v" and "b = u' @ c @ v'"
    unfolding includes_str_iff by blast
  then have "a = (u @ u') @ c @ (v' @ v)" by simp
  then show ?thesis unfolding includes_str_iff by blast
qed

lemma includes_str_slice: "includes_str s (slice s a b)"
proof -
  have "s = take a s @ take (b - a) (drop a s) @ drop (b - a) (drop a s)"
    by (metis append_take_drop_id)
  then show ?thesis unfolding includes_str_iff slice_def by blast
qed

lemma includes_str_dropWhile: "includes_str s (dropWhile P s)"
proof -
  have "s = takeWhile P s @ dropWhile P s @ []" by simp
  then show ?thesis unfolding includes_str_iff by blast
qed

lemma includes_str_rev: "includes_str s p \<Longrightarrow> includes_str (rev s) (rev p)"
proof -
  assume "includes_str s p"
  then obtain u v where "s = u @ p @ v" unfolding includes_str_iff by blast
  then have "rev s = rev v @ rev p @ rev u" by simp
  then show ?thesis unfolding includes_str_iff by blast
qed

lemma includes_str_trim: "includes_str s (trim s)"
proof -
  have "includes_str (rev (dropWhile isSpace s)) (dropWhile isSpace (rev (dropWhile isSpace s)))"
    by (rule includes_str_dropWhile)
  then have "includes_str (dropWhile isSpace s) (trim s)"
    using includes_str_rev [of "rev (dropWhile isSpace s)"] by (simp add: trim_def)
  with includes_str_dropWhile [of s isSpace] show ?thesis
    by (rule includes_str_trans)
qed

lemma split_not_Nil [simp]: "split sep s \<noteq> []"
  by (induction s) (auto split: list.splits)

lemma split_append: "split sep (a @ sep # b) = split sep a @ split sep b"
  by (induction a) (auto split: list.splits)

lemma split_no_sep: "sep \<notin> set a \<Longrightarrow> split sep a = [a]"
  by (induction a) auto

lemma split_free: "l \<in> set (split sep s) \<Longrightarrow> sep \<notin> set l"
  by (induction s arbitrary: l) (auto split: list.splits if_splits)

lemma join_split: "join sep (split sep s) = s"
proof (induction s)
  case Nil
  then show ?case by simp
next
  case (Cons c cs)
  obtain l ls where e: "split sep cs = l # ls" by (cases "split sep cs") auto
  show ?case
  proof (cases "c = sep")
    case True
    with Cons e show ?thesis by simp
  next
    case False
    with Cons e show ?thesis by (cases ls) auto
  qed
qed

lemma join_append:
  "xs \<noteq> [] \<Longrightarrow> ys \<noteq> [] \<Longrightarrow> join sep (xs @ ys) = join sep xs @ sep # join sep ys"
proof (induction xs rule: join.induct)
  case (1 sep)
  then show ?case by simp
next
  case (2 sep l)
  then show ?case by (cases ys) auto
next
  case (3 sep l v va)
  then show ?case by simp
qed

lemma split_join:
  "ls \<noteq> [] \<Longrightarrow> list_all (\<lambda>l. sep \<notin> set l) ls \<Longrightarrow> split sep (join sep ls) = ls"
proof (induction ls rule: join.induct)
  case (1 sep)
  then show ?case by simp
next
  case (2 sep l)
  then show ?case by (simp add: split_no_sep)
next
  case (3 sep l v va)
  then show ?case by (simp add: split_append split_no_sep)
qed

lemma includes_str_join: "p \<in> set ls \<Longrightarrow> includes_str (join sep ls) p"
proof (induction sep ls rule: join.induct)
  case (1 sep)
  then show ?case by simp
next
  case (2 sep l)
  then have "join sep [l] = [] @ p @ []" by simp
  then show ?case unfolding includes_str_iff by blast
next
  case (3 sep l v va)
  show ?case
  proof (cases "p = l")
    case True
    then have "join sep (l # v # va) = [] @ p @ (sep # join sep (v # va))" by simp
    then show ?thesis unfolding includes_str_iff by blast
  next
    case False
    with 3 have "includes_str (join sep (v # va)) p" by simp
    then obtain a b where "join sep (v # va) = a @ p @ b" unfolding includes_str_iff by blast
    then have "join sep (l # v # va) = (l @ sep # a) @ p @ b" by simp
    then show ?thesis unfolding includes_str_iff by blast
  qed
qed

lemma includes_str_split: "p \<in> set (split sep s) \<Longrightarrow> includes_str s p"
  using includes_str_join [of p "split sep s" sep] by (simp add: join_split)

lemma takeWhile_upto: "c \<notin> set a \<Longrightarrow> takeWhile (\<lambda>x. x \<noteq> c) (a @ c # b) = a"
  by (induction a) auto

section \<open>Facts about matching\<close>

lemma spans_mono:
  "rx_match rs i s st = Some (j, st') \<Longrightarrow> g \<in> fst ` set (spans st) \<Longrightarrow>
   g \<in> fst ` set (spans st')"
proof (induction rs i s st rule: rx_match.induct)
  case (7 k rs i c cs st)
  show ?case
  proof (cases "cls_ok k c")
    case False
    with 7 show ?thesis by simp
  next
    case True
    show ?thesis
    proof (cases "rx_match (Star k # rs) (Suc i) cs st")
      case None
      with True 7 show ?thesis by simp
    next
      case (Some r)
      with True 7 show ?thesis by simp
    qed
  qed
next
  case (11 k rs i c cs st)
  show ?case
  proof (cases "rx_match rs i (c # cs) st")
    case None
    with 11 show ?thesis by (simp split: if_splits)
  next
    case (Some r)
    with 11 show ?thesis by simp
  qed
next
  case (12 n rs i s st)
  then show ?case by (simp add: open_group_def)
next
  case (13 n rs i s st)
  then show ?case by (auto simp: close_group_def split: option.splits)
next
  case (14 b rs i s st)
  show ?case
  proof (cases "rx_match (b @ rs) i s st")
    case None
    with 14 show ?thesis by simp
  next
    case (Some r)
    with 14 show ?thesis by simp
  qed
qed (simp_all split: if_splits)

lemma rx_search_pos:
  "rx_search rs i s = Some (i', j, st) \<Longrightarrow>
   \<exists>k\<le>length s. i' = i + k \<and> rx_match rs (i + k) (drop k s) no_groups = Some (j, st)"
proof (induction s arbitrary: i)
  case Nil
  then show ?case by (auto split: option.splits)
next
  case (Cons c cs)
  show ?case
  proof (cases "rx_match rs i (c # cs) no_groups")
    case None
    with Cons.prems have "rx_search rs (Suc i) cs = Some (i', j, st)" by simp
    from Cons.IH [OF this] obtain k where
      k: "k \<le> length cs" "i' = Suc i + k" "rx_match rs (Suc i + k) (drop k cs) no_groups = Some (j, st)"
      by blast
    then have "Suc k \<le> length (c # cs) \<and> i' = i + Suc k \<and>
       rx_match rs (i + Suc k) (drop (Suc k) (c # cs)) no_groups = Some (j, st)" by simp
    then show ?thesis by blast
  next
    case (Some r)
    with Cons.prems have "i' = i + 0 \<and> rx_match rs (i + 0) (drop 0 (c # cs)) no_groups = Some (j, st)"
      by (cases r) auto
    then show ?thesis by blast
  qed
qed

lemma rx_search_absent: "c \<notin> set s \<Longrightarrow> rx_search (One (Is c) # rs) i s = None"
  by (induction s arbitrary: i) auto

lemma rx_search_skip:
  "c \<notin> set pre \<Longrightarrow>
   rx_search (One (Is c) # rs) i (pre @ rest) = rx_search (One (Is c) # rs) (i + length pre) rest"
proof (induction pre arbitrary: i)
  case Nil
  then show ?case by simp
next
  case (Cons a pre)
  then show ?case by simp
qed

lemma rx_match_lit:
  "rx_match (lit p) i s st = (if prefix p s then Some (i + length p, st) else None)"
proof (induction p arbitrary: i s)
  case Nil
  then show ?case by (simp add: lit_def)
next
  case (Cons a p)
  then show ?case by (cases s) (auto simp: lit_def)
qed

lemma test_lit: "test (lit p) s = includes_str s p"
proof -
  have "(rx_search (lit p) i s \<noteq> None) = includes_str s p" for i
  proof (induction s arbitrary: i)
    case Nil
    then show ?case by (simp add: rx_match_lit)
  next
    case (Cons c cs)
    then show ?case by (simp add: rx_match_lit split: option.splits)
  qed
  then show ?thesis by (simp add: test_def)
qed

lemma star_run:
  "\<forall>x\<in>set run. cls_ok k x \<Longrightarrow>
   rx_match (Star k # rs) (i + length run) rest st = Some r \<Longrightarrow>
   rx_match (Star k # rs) i (run @ rest) st = Some r"
proof (induction run arbitrary: i)
  case Nil
  then show ?case by simp
next
  case (Cons a run)
  then have "rx_match (Star k # rs) (Suc i) (run @ rest) st = Some r" by simp
  with Cons.prems(1) show ?case by simp
qed

lemma lazy_run:
  "\<forall>x\<in>set run. cls_ok k x \<and> x \<noteq> a \<Longrightarrow>
   rx_match (StarLazy k # [One (Is a), One (Is a)]) i (run @ a # a # post) st =
     Some (i + length run + 2, st)"
proof (induction run arbitrary: i)
  case Nil
  then show ?case by simp
next
  case (Cons x run)
  then show ?case by simp
qed

lemma star_close_twice:
  "rx_match (Star k # Close n # [One (Is a), One (Is a)]) i s st = Some (j, st') \<Longrightarrow>
   \<exists>run rest. s = run @ a # a # rest \<and> j = i + length run + 2 \<and>
     st' = close_group n (i + length run) st"
proof (induction s arbitrary: i)
  case Nil
  then show ?case by simp
next
  case (Cons c cs)
  have fallback: "\<exists>run rest. c # cs = run @ a # a # rest \<and> j = i + length run + 2 \<and>
     st' = close_group n (i + length run) st"
    if "rx_match (Close n # [One (Is a), One (Is a)]) i (c # cs) st = Some (j, st')"
  proof -
    from that have "c = a \<and> (\<exists>rest. cs = a # rest) \<and> j = i + 2 \<and> st' = close_group n i st"
      by (cases cs) (auto split: if_splits)
    then have "\<exists>rest. c # cs = [] @ a # a # rest \<and> j = i + length ([]::nat list) + 2 \<and>
       st' = close_group n (i + length ([]::nat list)) st" by auto
    then show ?thesis by blast
  qed
  show ?case
  proof (cases "cls_ok k c")
    case False
    with Cons.prems show ?thesis using fallback by simp
  next
    case True
    show ?thesis
    proof (cases "rx_match (Star k # Close n # [One (Is a), One (Is a)]) (Suc i) cs st")
      case None
      with True Cons.prems show ?thesis using fallback by simp
    next
      case (Some r)
      with True Cons.prems have "rx_match (Star k # Close n # [One (Is a), One (Is a)]) (Suc i) cs st = Some (j, st')"
        by simp
      from Cons.IH [OF this] obtain run rest where
        "cs = run @ a # a # rest" "j = Suc i + length run + 2" "st' = close_group n (Suc i + length run) st"
        by blast
      then have "c # cs = (c # run) @ a # a # rest \<and> j = i + length (c # run) + 2 \<and>
         st' = close_group n (i + length (c # run)) st" by simp
      then show ?thesis by blast
    qed
  qed
qed

lemma match_SomeE:
  assumes "match s rs = Some m"
  obtains i j st where "rx_search rs 0 s = Some (i, j, st)"
    and "m = \<lparr>matched = slice s i j,
          groups = (\<lambda>n. map_option (\<lambda>(a, b). slice s a b) (map_of (spans st) n))\<rparr>"
  using assms by (auto simp: match_def split: option.splits)

lemma close_group_spans:
  "g \<in> fst ` set (starts st) \<Longrightarrow> g \<in> fst ` set (spans (close_group g i st))"
proof -
  assume "g \<in> fst ` set (starts st)"
  then obtain a where "map_of (starts st) g = Some a"
    by (cases "map_of (starts st) g") (auto simp: map_of_eq_None_iff)
  then show ?thesis by (simp add: close_group_def)
qed

lemma star_close_group:
  "rx_match (Star k # Close g # rs) i s st = Some (j, st') \<Longrightarrow>
   g \<in> fst ` set (starts st) \<Longrightarrow> g \<in> fst ` set (spans st')"
proof (induction s arbitrary: i)
  case Nil
  then have "rx_match rs i [] (close_group g i st) = Some (j, st')" by simp
  then show ?case using close_group_spans [OF Nil.prems(2)] by (rule spans_mono)
next
  case (Cons c cs)
  have fallback: "g \<in> fst ` set (spans st')"
    if "rx_match (Close g # rs) i (c # cs) st = Some (j, st')"
  proof -
    from that have "rx_match rs i (c # cs) (close_group g i st) = Some (j, st')" by simp
    then show ?thesis using close_group_spans [OF Cons.prems(2)] by (rule spans_mono)
  qed
  show ?case
  proof (cases "cls_ok k c")
    case False
    with Cons.prems show ?thesis using fallback by simp
  next
    case True
    show ?thesis
    proof (cases "rx_match (Star k # Close g # rs) (Suc i) cs st")
      case None
      with True Cons.prems show ?thesis using fallback by simp
    next
      case (Some r)
      with True Cons.prems have "rx_match (Star k # Close g # rs) (Suc i) cs st = Some (j, st')"
        by simp
      then show ?thesis using Cons.prems(2) by (rule Cons.IH)
    qed
  qed
qed

lemma internal_link_group:
  assumes "rx_match rx_internal_link i s no_groups = Some (j, st)"
  shows "1 \<in> fst ` set (spans st)"
proof -
  let ?rest = "[Opt [One (Is 124), Open 2, Plus (IsNot 93), Close 2], One (Is 93), One (Is 93)]"
  obtain a s1 where s: "s = a # s1" using assms by (cases s) (auto simp: rx_internal_link_def)
  obtain b s2 where s1: "s1 = b # s2" using assms s by (cases s1) (auto simp: rx_internal_link_def split: if_splits)
  obtain c s3 where s2: "s2 = c # s3" using assms s s1
    by (cases s2) (auto simp: rx_internal_link_def split: if_splits)
  have "rx_match (Star (IsNot 93) # Close 1 # ?rest) (Suc (Suc (Suc i))) s3
          (open_group 1 (Suc (Suc i)) no_groups) = Some (j, st)"
    using assms s s1 s2 by (simp add: rx_internal_link_def split: if_splits)
  moreover have "1 \<in> fst ` set (starts (open_group 1 (Suc (Suc i)) no_groups))"
    by (simp add: open_group_def)
  ultimately show ?thesis by (rule star_close_group)
qed

lemma match_internal_link_group:
  assumes "match s rx_internal_link = Some m"
  shows "groups m 1 \<noteq> None"
proof -
  from assms obtain i j st where r: "rx_search rx_internal_link 0 s = Some (i, j, st)"
    and m: "m = \<lparr>matched = slice s i j,
                groups = (\<lambda>n. map_option (\<lambda>(a, b). slice s a b) (map_of (spans st) n))\<rparr>"
    by (rule match_SomeE)
  from rx_search_pos [OF r] obtain k where
    "rx_match rx_internal_link (0 + k) (drop k s) no_groups = Some (j, st)" by blast
  then have "1 \<in> fst ` set (spans st)" by (rule internal_link_group)
  then have "map_of (spans st) 1 \<noteq> None" by (simp add: map_of_eq_None_iff)
  with m show ?thesis by simp
qed

lemma match_group_includes:
  assumes "match s rs = Some m" and "groups m n = Some g"
  shows "includes_str s g"
proof -
  from assms(1) obtain i j st where "rx_search rs 0 s = Some (i, j, st)" and
    m: "m = \<lparr>matched = slice s i j,
                groups = (\<lambda>n. map_option (\<lambda>(a, b). slice s a b) (map_of (spans st) n))\<rparr>"
    by (rule match_SomeE)
  with assms(2) obtain a b where "g = slice s a b" by auto
  then show ?thesis by (simp add: includes_str_slice)
qed

lemma match_status_label_includes:
  assumes "match s rx_status_label = Some m" and "groups m 1 = Some g"
  shows "includes_str s (asc ''**'' @ g @ asc ''**'')"
proof -
  from assms(1) obtain i j st where r: "rx_search rx_status_label 0 s = Some (i, j, st)"
    and m: "m = \<lparr>matched = slice s i j,
                groups = (\<lambda>n. map_option (\<lambda>(a, b). slice s a b) (map_of (spans st) n))\<rparr>"
    by (rule match_SomeE)
  from rx_search_pos [OF r] obtain k where k: "k \<le> length s" "i = k"
    and rm: "rx_match rx_status_label k (drop k s) no_groups = Some (j, st)" by auto
  obtain a s1 where s: "drop k s = a # s1" using rm by (cases "drop k s") (auto simp: rx_status_label_def)
  obtain b s2 where s1: "s1 = b # s2" using rm s by (cases s1) (auto simp: rx_status_label_def split: if_splits)
  obtain c s3 where s2: "s2 = c # s3" using rm s s1
    by (cases s2) (auto simp: rx_status_label_def split: if_splits)
  have ab: "a = 42" "b = 42"
    using rm s s1 s2 by (auto simp: rx_status_label_def split: if_splits)
  have "rx_match (Star (IsNot 42) # Close 1 # [One (Is 42), One (Is 42)]) (Suc (Suc (Suc k))) s3
          (open_group 1 (Suc (Suc k)) no_groups) = Some (j, st)"
    using rm s s1 s2 by (simp add: rx_status_label_def split: if_splits)
  from star_close_twice [OF this] obtain run rest where
    s3: "s3 = run @ 42 # 42 # rest"
    and st: "st = close_group 1 (Suc (Suc (Suc k)) + length run) (open_group 1 (Suc (Suc k)) no_groups)"
    by blast
  have sp: "map_of (spans st) 1 = Some (Suc (Suc k), Suc (Suc (Suc k)) + length run)"
    by (simp add: st close_group_def open_group_def no_groups_def)
  have d: "drop (Suc (Suc k)) s = c # run @ 42 # 42 # rest"
    using s s1 s2 s3 by (metis Cons_nth_drop_Suc drop_Suc drop_drop list.sel(3) tl_drop plus_1_eq_Suc)
  have "g = slice s (Suc (Suc k)) (Suc (Suc (Suc k)) + length run)"
    using assms(2) m sp by simp
  then have g: "g = c # run" by (simp add: slice_def d)
  have "s = take k s @ drop k s" by simp
  then have "s = take k s @ (asc ''**'' @ g @ asc ''**'') @ rest"
    using s s1 s2 s3 ab g by (simp add: asc_def)
  then show ?thesis unfolding includes_str_iff by blast
qed

text \<open>
  The leftmost match, exactly: \<^verbatim>\<open>rx_search\<close> fails when the items match at no position, and
  otherwise gives the match at the first position where they do.
\<close>

lemma rx_search_None_iff:
  "rx_search rs i s = None \<longleftrightarrow>
     (\<forall>k\<le>length s. rx_match rs (i + k) (drop k s) no_groups = None)"
proof (induction s arbitrary: i)
  case Nil
  then show ?case by (auto split: option.splits)
next
  case (Cons c cs)
  have split_all: "(\<forall>k\<le>Suc (length cs). P k) \<longleftrightarrow> P 0 \<and> (\<forall>k\<le>length cs. P (Suc k))" for P
  proof
    assume a: "\<forall>k\<le>Suc (length cs). P k"
    then show "P 0 \<and> (\<forall>k\<le>length cs. P (Suc k))" by simp
  next
    assume a: "P 0 \<and> (\<forall>k\<le>length cs. P (Suc k))"
    show "\<forall>k\<le>Suc (length cs). P k"
    proof (intro allI impI)
      fix k assume "k \<le> Suc (length cs)"
      with a show "P k" by (cases k) simp_all
    qed
  qed
  show ?case
  proof (cases "rx_match rs i (c # cs) no_groups")
    case None
    then show ?thesis
      using Cons.IH [of "Suc i"] by (simp add: split_all)
  next
    case (Some r)
    then have "rx_search rs i (c # cs) \<noteq> None" by (cases r) simp
    moreover have "\<not> (\<forall>k\<le>length (c # cs). rx_match rs (i + k) (drop k (c # cs)) no_groups = None)"
      using Some by (auto intro: exI [of _ 0])
    ultimately show ?thesis by blast
  qed
qed

lemma rx_search_first:
  "rx_search rs i s = Some (i', j, st) \<Longrightarrow>
   \<exists>k\<le>length s. i' = i + k \<and> rx_match rs (i + k) (drop k s) no_groups = Some (j, st) \<and>
     (\<forall>k'<k. rx_match rs (i + k') (drop k' s) no_groups = None)"
proof (induction s arbitrary: i)
  case Nil
  then show ?case by (auto split: option.splits)
next
  case (Cons c cs)
  show ?case
  proof (cases "rx_match rs i (c # cs) no_groups")
    case None
    with Cons.prems have "rx_search rs (Suc i) cs = Some (i', j, st)" by simp
    from Cons.IH [OF this] obtain k where
      k: "k \<le> length cs" "i' = Suc i + k"
        "rx_match rs (Suc i + k) (drop k cs) no_groups = Some (j, st)"
        "\<forall>k'<k. rx_match rs (Suc i + k') (drop k' cs) no_groups = None"
      by blast
    have "rx_match rs (i + k') (drop k' (c # cs)) no_groups = None" if "k' < Suc k" for k'
      using that None k(4) by (cases k') simp_all
    with k(1-3) have "Suc k \<le> length (c # cs) \<and> i' = i + Suc k \<and>
       rx_match rs (i + Suc k) (drop (Suc k) (c # cs)) no_groups = Some (j, st) \<and>
       (\<forall>k'<Suc k. rx_match rs (i + k') (drop k' (c # cs)) no_groups = None)" by simp
    then show ?thesis by blast
  next
    case (Some r)
    with Cons.prems have "0 \<le> length (c # cs) \<and> i' = i + 0 \<and>
      rx_match rs (i + 0) (drop 0 (c # cs)) no_groups = Some (j, st) \<and>
      (\<forall>k'<0. rx_match rs (i + k') (drop k' (c # cs)) no_groups = None)"
      by (cases r) auto
    then show ?thesis by blast
  qed
qed

text \<open>
  \<^verbatim>\<open>/^(\S+)/\<close> matches a text that starts with a character other than white space, and its
  group is the run of such characters at the start.
\<close>

lemma bol_search_none: "0 < i \<Longrightarrow> rx_search (Bol # rs) i s = None"
  by (induction s arbitrary: i) simp_all

lemma star_to_end:
  "rx_match [Star k, Close n] i s st =
     Some (i + length (takeWhile (cls_ok k) s), close_group n (i + length (takeWhile (cls_ok k) s)) st)"
  by (induction s arbitrary: i) simp_all

lemma match_type_icon_none:
  "s = [] \<or> isSpace (hd s) \<Longrightarrow> match s rx_type_icon = None"
  by (cases s) (simp_all add: match_def rx_type_icon_def bol_search_none)

lemma match_type_icon_some:
  assumes "s \<noteq> []" and "\<not> isSpace (hd s)"
  shows "\<exists>m. match s rx_type_icon = Some m \<and>
    groups m 1 = Some (takeWhile (\<lambda>c. \<not> isSpace c) s)"
proof -
  obtain c cs where s: "s = c # cs" using assms(1) by (cases s) auto
  define n where "n = length (takeWhile (cls_ok NonSpace) cs)"
  have tw: "takeWhile (cls_ok NonSpace) cs = takeWhile (\<lambda>c. \<not> isSpace c) cs"
    by (rule takeWhile_cong) simp_all
  have "rx_match rx_type_icon 0 s no_groups =
      Some (Suc n, close_group 1 (Suc n) (open_group 1 0 no_groups))"
    using assms(2) by (simp add: s rx_type_icon_def star_to_end n_def)
  then have "rx_search rx_type_icon 0 s =
      Some (0, Suc n, close_group 1 (Suc n) (open_group 1 0 no_groups))"
    by (simp add: s)
  moreover have "take n cs = takeWhile (\<lambda>c. \<not> isSpace c) cs"
    unfolding n_def tw by (rule takeWhile_eq_take [symmetric])
  ultimately show ?thesis
    using assms(2) by (simp add: match_def s close_group_def open_group_def no_groups_def slice_def)
qed

text \<open>
  \<^verbatim>\<open>/\*\*([^*]+)\*\*/\<close> matches at a position exactly when \<^verbatim>\<open>**\<close>, a non-empty text \<open>x\<close> without
  \<^verbatim>\<open>*\<close> and \<^verbatim>\<open>**\<close> stand there, and its group is \<open>x\<close>.
\<close>

lemma star_isnot_close_twice:
  "rx_match (Star (IsNot a) # Close n # [One (Is a), One (Is a)]) i s st =
     (if prefix [a, a] (dropWhile (\<lambda>c. c \<noteq> a) s)
      then Some (i + length (takeWhile (\<lambda>c. c \<noteq> a) s) + 2,
                 close_group n (i + length (takeWhile (\<lambda>c. c \<noteq> a) s)) st)
      else None)"
proof (induction s arbitrary: i)
  case Nil
  then show ?case by simp
next
  case (Cons c cs)
  show ?case
  proof (cases "c = a")
    case True
    then show ?thesis by (cases cs) simp_all
  next
    case False
    then show ?thesis by (simp add: Cons.IH)
  qed
qed

lemma status_label_at:
  assumes "s = asc ''**'' @ x @ asc ''**'' @ v" and "x \<noteq> []" and "42 \<notin> set x"
  shows "rx_match rx_status_label k s st =
    Some (k + length x + 4, close_group 1 (k + 2 + length x) (open_group 1 (k + 2) st))"
proof -
  obtain c run where x: "x = c # run" using assms(2) by (cases x) auto
  with assms(3) have c: "c \<noteq> 42" and run: "42 \<notin> set run" by auto
  have tw: "takeWhile (\<lambda>c. c \<noteq> 42) (run @ 42 # 42 # v) = run"
    using run by (rule takeWhile_upto)
  have "\<forall>y\<in>set run. y \<noteq> 42" using run by auto
  then have dw: "dropWhile (\<lambda>c. c \<noteq> 42) (run @ 42 # 42 # v) = 42 # 42 # v"
    by (simp add: dropWhile_append2)
  show ?thesis
    using c by (simp add: assms(1) x asc_def rx_status_label_def star_isnot_close_twice tw dw)
qed

lemma status_label_at_shape:
  assumes "rx_match rx_status_label k s st = Some r"
  shows "\<exists>x v. s = asc ''**'' @ x @ asc ''**'' @ v \<and> x \<noteq> [] \<and> 42 \<notin> set x"
proof -
  obtain a s1 where s: "s = a # s1" using assms by (cases s) (auto simp: rx_status_label_def)
  obtain b s2 where s1: "s1 = b # s2"
    using assms s by (cases s1) (auto simp: rx_status_label_def split: if_splits)
  obtain c s3 where s2: "s2 = c # s3"
    using assms s s1 by (cases s2) (auto simp: rx_status_label_def split: if_splits)
  have abc: "a = 42" "b = 42" "c \<noteq> 42"
    using assms s s1 s2 by (auto simp: rx_status_label_def split: if_splits)
  have "prefix [42, 42] (dropWhile (\<lambda>c. c \<noteq> 42) s3)"
    using assms s s1 s2 abc
    by (simp add: rx_status_label_def star_isnot_close_twice split: if_splits)
  then obtain v where v: "dropWhile (\<lambda>c. c \<noteq> 42) s3 = 42 # 42 # v"
    by (auto simp: prefix_def)
  define run where "run = takeWhile (\<lambda>c. c \<noteq> 42) s3"
  have "s3 = run @ 42 # 42 # v"
    unfolding run_def v [symmetric] by simp
  moreover have "42 \<notin> set run"
    unfolding run_def by (auto dest: set_takeWhileD)
  ultimately have "s = asc ''**'' @ (c # run) @ asc ''**'' @ v \<and> c # run \<noteq> [] \<and> 42 \<notin> set (c # run)"
    using s s1 s2 abc by (simp add: asc_def)
  then show ?thesis by blast
qed

lemma match_status_label_absent:
  assumes "\<not> (\<exists>u x v. s = u @ asc ''**'' @ x @ asc ''**'' @ v \<and> x \<noteq> [] \<and> 42 \<notin> set x)"
  shows "match s rx_status_label = None"
proof -
  have "rx_match rx_status_label (0 + k) (drop k s) no_groups = None" if "k \<le> length s" for k
  proof (rule ccontr)
    assume "rx_match rx_status_label (0 + k) (drop k s) no_groups \<noteq> None"
    then obtain r where "rx_match rx_status_label (0 + k) (drop k s) no_groups = Some r" by blast
    from status_label_at_shape [OF this] obtain x v where
      "drop k s = asc ''**'' @ x @ asc ''**'' @ v" "x \<noteq> []" "42 \<notin> set x" by blast
    moreover have "s = take k s @ drop k s" by simp
    ultimately have "s = take k s @ asc ''**'' @ x @ asc ''**'' @ v \<and> x \<noteq> [] \<and> 42 \<notin> set x"
      by simp
    with assms show False by blast
  qed
  then have "rx_search rx_status_label 0 s = None"
    unfolding rx_search_None_iff by blast
  then show ?thesis by (simp add: match_def)
qed

lemma match_status_label_first:
  assumes s: "s = u @ asc ''**'' @ x @ asc ''**'' @ v" and x: "x \<noteq> []" "42 \<notin> set x"
    and least: "\<forall>u' x' v'. s = u' @ asc ''**'' @ x' @ asc ''**'' @ v' \<and> x' \<noteq> [] \<and> 42 \<notin> set x' \<longrightarrow>
      length u \<le> length u'"
  shows "\<exists>m. match s rx_status_label = Some m \<and> groups m 1 = Some x"
proof -
  let ?n = "length u"
  have du: "drop ?n s = asc ''**'' @ x @ asc ''**'' @ v" by (simp add: s)
  have at_u: "rx_match rx_status_label (0 + ?n) (drop ?n s) no_groups =
      Some (0 + ?n + length x + 4,
            close_group 1 (0 + ?n + 2 + length x) (open_group 1 (0 + ?n + 2) no_groups))"
    using du x by (rule status_label_at)
  have len: "?n \<le> length s" by (simp add: s)
  have "rx_search rx_status_label 0 s \<noteq> None"
    unfolding rx_search_None_iff using at_u len by auto
  then obtain i j st where r: "rx_search rx_status_label 0 s = Some (i, j, st)" by auto
  from rx_search_first [OF r] obtain k where k: "k \<le> length s" "i = 0 + k"
    "rx_match rx_status_label (0 + k) (drop k s) no_groups = Some (j, st)"
    "\<forall>k'<k. rx_match rx_status_label (0 + k') (drop k' s) no_groups = None"
    by blast
  have "\<not> ?n < k" using k(4) at_u by auto
  moreover have "?n \<le> k"
  proof -
    from status_label_at_shape [OF k(3)] obtain x' v' where
      "drop k s = asc ''**'' @ x' @ asc ''**'' @ v'" "x' \<noteq> []" "42 \<notin> set x'" by blast
    moreover have "s = take k s @ drop k s" by simp
    ultimately have "s = take k s @ asc ''**'' @ x' @ asc ''**'' @ v' \<and> x' \<noteq> [] \<and> 42 \<notin> set x'"
      by simp
    with least have "?n \<le> length (take k s)" by blast
    with k(1) show ?thesis by simp
  qed
  ultimately have "k = ?n" by simp
  with k(3) at_u have st: "st = close_group 1 (?n + 2 + length x) (open_group 1 (?n + 2) no_groups)"
    by simp
  have "slice s (?n + 2) (?n + 2 + length x) = x"
    by (simp add: slice_def s asc_def)
  then have "map_option (\<lambda>(a, b). slice s a b) (map_of (spans st) 1) = Some x"
    by (simp add: st close_group_def open_group_def no_groups_def)
  with r show ?thesis by (simp add: match_def)
qed

section \<open>The encoder\<close>

lemma concat_replicate_unit: "concat (replicate n [c]) = replicate n c"
  by (induction n) simp_all

lemma repeat_unit: "0 \<le> n \<Longrightarrow> repeat [c] n = Inr (replicate (nat n) c)"
  by (simp add: repeat_def concat_replicate_unit)

lemma starString_valid:
  "0 \<le> n \<Longrightarrow> n \<le> 5 \<Longrightarrow>
   starString n =
     Inr (if n = 0 then 0x26AA # asc '' Not Rated''
          else replicate (nat n) star_filled @ replicate (nat (5 - n)) star_empty)"
  by (simp add: starString_def repeat_unit)

lemma getTypeInfo_video:
  "getTypeInfo (asc ''video'') =
     \<lparr>key = asc ''video'', label = asc ''Video'', icon = [0xD83C, 0xDFA5]\<rparr>"
  by (simp add: getTypeInfo_def TYPE_OPTIONS_def asc_def)

lemma getStatusInfo_in_progress:
  "getStatusInfo (asc ''in-progress'') =
     \<lparr>key = asc ''in-progress'', label = asc ''In Progress'', icon = [0xD83D, 0xDD04]\<rparr>"
  by (simp add: getStatusInfo_def STATUS_ORDER_def asc_def)

lemma three_of_five:
  "replicate 3 star_filled @ replicate 2 star_empty = [0x2605, 0x2605, 0x2605, 0x2606, 0x2606]"
  by (simp add: star_filled_def star_empty_def numeral_3_eq_3 numeral_2_eq_2)

lemma starString_above_five: "5 < n \<Longrightarrow> starString n = Inl RangeError"
  by (simp add: starString_def repeat_def)

lemma buildLine_above_five: "5 < stars d \<Longrightarrow> buildLine v d = Inl RangeError"
  by (simp add: buildLine_def Let_def starString_above_five)

lemma buildLine_intro_to_rust:
  "buildLine v intro_to_rust = Inr (intro_header @ nl @ intro_detail)"
  by (simp add: buildLine_def Let_def intro_to_rust_def getTypeInfo_video
      getStatusInfo_in_progress starString_valid three_of_five)
     (simp add: intro_header_def intro_detail_def asc_def)



section \<open>Reading a reference back\<close>

lemma prefill_title_total:
  "\<exists>f'. prefill_title parts f = Inr f' \<and> typeSelect f' = typeSelect f \<and>
     statusSelect f' = statusSelect f \<and> currentRating f' = currentRating f"
proof (cases "match (parts ! 0) rx_internal_link")
  case None
  then show ?thesis
    by (cases "match (parts ! 0) rx_link") (simp_all add: prefill_title_def at_index_def)
next
  case (Some m)
  from match_internal_link_group [OF this] obtain linkPath where "groups m 1 = Some linkPath"
    by auto
  with Some show ?thesis
    by (simp add: prefill_title_def at_index_def Let_def)
qed

lemma part_includes:
  assumes "i < length (split 124 line)"
  shows "includes_str line (map trim (split 124 line) ! i)"
proof -
  have "split 124 line ! i \<in> set (split 124 line)" using assms by simp
  then have "includes_str line (split 124 line ! i)"
    by (rule includes_str_split)
  moreover have "includes_str (split 124 line ! i) (trim (split 124 line ! i))"
    by (rule includes_str_trim)
  ultimately have "includes_str line (trim (split 124 line ! i))" by (rule includes_str_trans)
  then show ?thesis using assms by simp
qed

lemma prefill_type_total:
  assumes "parts = map trim (split 124 line)"
  shows "\<exists>f'. prefill_type parts f = Inr f' \<and> titleInput f' = titleInput f \<and>
     statusSelect f' = statusSelect f \<and> currentRating f' = currentRating f \<and>
     ((\<forall>t\<in>set TYPE_OPTIONS. \<not> includes_str line (icon t)) \<longrightarrow> typeSelect f' = typeSelect f)"
proof (cases "length parts > 1")
  case False
  then show ?thesis by (simp add: prefill_type_def)
next
  case True
  show ?thesis
  proof (cases "match (parts ! 1) rx_type_icon")
    case None
    with True show ?thesis by (simp add: prefill_type_def at_index_def)
  next
    case (Some m)
    note m = this
    show ?thesis
    proof (cases "find (\<lambda>t. Some (icon t) = groups m 1) TYPE_OPTIONS")
      case None
      with True m show ?thesis by (simp add: prefill_type_def at_index_def)
    next
      case (Some t)
      then have t: "t \<in> set TYPE_OPTIONS" "groups m 1 = Some (icon t)"
        by (auto simp: find_Some_iff)
      from m t(2) have "includes_str (parts ! 1) (icon t)" by (rule match_group_includes)
      moreover have "includes_str line (parts ! 1)"
        using True part_includes [of 1 line] unfolding assms by simp
      ultimately have "includes_str line (icon t)" by (rule includes_str_trans [rotated])
      with t(1) have neg: "\<not> (\<forall>t\<in>set TYPE_OPTIONS. \<not> includes_str line (icon t))" by blast
      show ?thesis
        using True m Some by (simp add: prefill_type_def at_index_def neg)
    qed
  qed
qed

lemma prefill_status_total:
  assumes "parts = map trim (split 124 line)"
  shows "\<exists>f'. prefill_status parts f = Inr f' \<and> titleInput f' = titleInput f \<and>
     typeSelect f' = typeSelect f \<and> currentRating f' = currentRating f \<and>
     ((\<forall>s\<in>set STATUS_ORDER. \<not> includes_str line (asc ''**'' @ label s @ asc ''**'')) \<longrightarrow>
        statusSelect f' = statusSelect f)"
proof (cases "length parts > 2")
  case False
  then show ?thesis by (simp add: prefill_status_def)
next
  case True
  show ?thesis
  proof (cases "match (parts ! 2) rx_status_label")
    case None
    with True show ?thesis by (simp add: prefill_status_def at_index_def)
  next
    case (Some m)
    note m = this
    show ?thesis
    proof (cases "find (\<lambda>s. Some (label s) = groups m 1) STATUS_ORDER")
      case None
      with True m show ?thesis by (simp add: prefill_status_def at_index_def)
    next
      case (Some t)
      then have t: "t \<in> set STATUS_ORDER" "groups m 1 = Some (label t)"
        by (auto simp: find_Some_iff)
      from m t(2) have "includes_str (parts ! 2) (asc ''**'' @ label t @ asc ''**'')"
        by (rule match_status_label_includes)
      moreover have "includes_str line (parts ! 2)"
        using True part_includes [of 2 line] unfolding assms by simp
      ultimately have "includes_str line (asc ''**'' @ label t @ asc ''**'')"
        by (rule includes_str_trans [rotated])
      with t(1) have neg:
        "\<not> (\<forall>s\<in>set STATUS_ORDER. \<not> includes_str line (asc ''**'' @ label s @ asc ''**''))"
        by blast
      show ?thesis
        using True m Some by (simp add: prefill_status_def at_index_def neg)
    qed
  qed
qed

lemma prefill_rating_total:
  "\<exists>f'. prefill_rating parts f = Inr f' \<and> titleInput f' = titleInput f \<and>
     typeSelect f' = typeSelect f \<and> statusSelect f' = statusSelect f \<and>
     currentRating f' =
       (if length parts > 3 then int (length (filter (\<lambda>c. c = star_filled) (parts ! 3)))
        else currentRating f)"
  by (simp add: prefill_rating_def at_index_def Let_def)

lemma onOpen_total:
  "\<exists>f. onOpen (Some line) = Inr f \<and>
     ((\<forall>t\<in>set TYPE_OPTIONS. \<not> includes_str line (icon t)) \<longrightarrow>
        typeSelect f = key (hd TYPE_OPTIONS)) \<and>
     ((\<forall>s\<in>set STATUS_ORDER. \<not> includes_str line (asc ''**'' @ label s @ asc ''**'')) \<longrightarrow>
        statusSelect f = key (hd STATUS_ORDER)) \<and>
     currentRating f =
       (if length (split 124 line) > 3
        then int (length (filter (\<lambda>c. c = star_filled) (map trim (split 124 line) ! 3)))
        else 0)"
proof (cases "line = []")
  case True
  then show ?thesis
    by (simp add: onOpen_def initial_form_def TYPE_OPTIONS_def STATUS_ORDER_def)
next
  case False
  define parts where "parts = map trim (split 124 line)"
  obtain f1 where f1: "prefill_title parts initial_form = Inr f1"
    "typeSelect f1 = typeSelect initial_form" "statusSelect f1 = statusSelect initial_form"
    "currentRating f1 = currentRating initial_form"
    using prefill_title_total [of parts initial_form] by blast
  obtain f2 where f2: "prefill_type parts f1 = Inr f2"
    "statusSelect f2 = statusSelect f1" "currentRating f2 = currentRating f1"
    "(\<forall>t\<in>set TYPE_OPTIONS. \<not> includes_str line (icon t)) \<longrightarrow> typeSelect f2 = typeSelect f1"
    using prefill_type_total [OF parts_def, of f1] by blast
  obtain f3 where f3: "prefill_status parts f2 = Inr f3"
    "typeSelect f3 = typeSelect f2" "currentRating f3 = currentRating f2"
    "(\<forall>s\<in>set STATUS_ORDER. \<not> includes_str line (asc ''**'' @ label s @ asc ''**'')) \<longrightarrow>
       statusSelect f3 = statusSelect f2"
    using prefill_status_total [OF parts_def, of f2] by blast
  obtain f4 where f4: "prefill_rating parts f3 = Inr f4"
    "typeSelect f4 = typeSelect f3" "statusSelect f4 = statusSelect f3"
    "currentRating f4 =
       (if length parts > 3 then int (length (filter (\<lambda>c. c = star_filled) (parts ! 3)))
        else currentRating f3)"
    using prefill_rating_total [of parts f3] by blast
  have "onOpen (Some line) = Inr f4"
    using False f1(1) f2(1) f3(1) f4(1) by (simp add: onOpen_def Let_def bind_def parts_def)
  moreover have "typeSelect initial_form = key (hd TYPE_OPTIONS)"
    "statusSelect initial_form = key (hd STATUS_ORDER)" "currentRating initial_form = 0"
    by (simp_all add: initial_form_def)
  ultimately show ?thesis
    using f1(2-) f2(2-) f3(2-) f4(2-) unfolding parts_def by simp
qed

lemma type_icons_nonempty: "\<forall>t\<in>set TYPE_OPTIONS. icon t \<noteq> []"
  by (simp add: TYPE_OPTIONS_def)

lemma find_none_empty: "\<forall>t\<in>set xs. f t \<noteq> [] \<Longrightarrow> find (\<lambda>t. f t = []) xs = None"
  by (induction xs) simp_all

lemma type_of_part:
  "(case match s rx_type_icon of
      None \<Rightarrow> Inr f
    | Some m \<Rightarrow>
        (case find (\<lambda>t. Some (icon t) = groups m 1) TYPE_OPTIONS of
           None \<Rightarrow> Inr f
         | Some t \<Rightarrow> Inr (f\<lparr>typeSelect := key t\<rparr>))) =
   (Inr (f\<lparr>typeSelect :=
       (case find (\<lambda>t. icon t = takeWhile (\<lambda>c. \<not> isSpace c) s) TYPE_OPTIONS of
          None \<Rightarrow> typeSelect f
        | Some t \<Rightarrow> key t)\<rparr>) :: error + form)"
proof (cases "s = [] \<or> isSpace (hd s)")
  case True
  then have "takeWhile (\<lambda>c. \<not> isSpace c) s = []" by (cases s) auto
  moreover from True have "match s rx_type_icon = None" by (rule match_type_icon_none)
  moreover have "find (\<lambda>t. icon t = []) TYPE_OPTIONS = None"
    using type_icons_nonempty by (rule find_none_empty)
  ultimately show ?thesis by simp
next
  case False
  then obtain m where "match s rx_type_icon = Some m"
    "groups m 1 = Some (takeWhile (\<lambda>c. \<not> isSpace c) s)"
    using match_type_icon_some [of s] by blast
  then show ?thesis by (simp split: option.splits)
qed

lemma prefill_type_exact:
  "prefill_type parts f =
     Inr (f\<lparr>typeSelect :=
       (if 1 < length parts then
          (case find (\<lambda>t. icon t = takeWhile (\<lambda>c. \<not> isSpace c) (parts ! 1)) TYPE_OPTIONS of
             None \<Rightarrow> typeSelect f
           | Some t \<Rightarrow> key t)
        else typeSelect f)\<rparr>)"
  by (simp add: prefill_type_def at_index_def type_of_part)


lemma prefill_status_absent:
  assumes "length parts \<le> 2 \<or>
    \<not> (\<exists>u x v. parts ! 2 = u @ asc ''**'' @ x @ asc ''**'' @ v \<and> x \<noteq> [] \<and> 42 \<notin> set x)"
  shows "prefill_status parts f = Inr f"
proof (cases "length parts \<le> 2")
  case True
  then show ?thesis by (simp add: prefill_status_def)
next
  case False
  with assms have "match (parts ! 2) rx_status_label = None"
    by (intro match_status_label_absent) simp
  with False show ?thesis by (simp add: prefill_status_def at_index_def)
qed

lemma prefill_status_first:
  assumes "2 < length parts" and "parts ! 2 = u @ asc ''**'' @ x @ asc ''**'' @ v"
    and "x \<noteq> []" and "42 \<notin> set x"
    and "\<forall>u' x' v'. parts ! 2 = u' @ asc ''**'' @ x' @ asc ''**'' @ v' \<and> x' \<noteq> [] \<and> 42 \<notin> set x' \<longrightarrow>
      length u \<le> length u'"
  shows "prefill_status parts f =
    Inr (f\<lparr>statusSelect :=
      (case find (\<lambda>s. label s = x) STATUS_ORDER of
         None \<Rightarrow> statusSelect f
       | Some s \<Rightarrow> key s)\<rparr>)"
proof -
  from match_status_label_first [OF assms(2-5)] obtain m where
    "match (parts ! 2) rx_status_label = Some m" "groups m 1 = Some x" by blast
  with assms(1) show ?thesis
    by (simp add: prefill_status_def at_index_def split: option.splits)
qed


lemma prefill_title_no_link:
  assumes "match (parts ! 0) rx_internal_link = None \<and> match (parts ! 0) rx_link = None"
    and "prefill_title parts f = Inr f'"
  shows "urlInput f' = urlInput f"
  using assms by (auto simp: prefill_title_def at_index_def split: if_splits)

lemma prefill_status_url: "prefill_status parts f = Inr f' \<Longrightarrow> urlInput f' = urlInput f"
  by (auto simp: prefill_status_def split: if_splits option.splits)

lemma prefill_rating_url: "prefill_rating parts f = Inr f' \<Longrightarrow> urlInput f' = urlInput f"
  by (auto simp: prefill_rating_def Let_def split: if_splits option.splits)

text \<open>
  \<^bold>\<open>C7.\<close>  The prefill never raises, whatever the line (or without one), and it reads each
  field from its own part of the line, \<open>parts\<close> being the trimmed texts between the \<^verbatim>\<open>|\<close>.
  The URL stays empty when the first part matches neither pattern of a link.  The type is
  the one whose icon is the text of the second part up to its first white space, and the
  first entry of \<^verbatim>\<open>TYPE_OPTIONS\<close> when that text is no type's icon or the part is missing.
  The status stays the first entry of \<^verbatim>\<open>STATUS_ORDER\<close> when the third part is missing or
  holds no \<^verbatim>\<open>**x**\<close> (with \<open>x\<close> not empty and without \<^verbatim>\<open>*\<close>, code unit 42); otherwise it
  is the status with the label \<open>x\<close> of the first such text in the part, and the first
  entry again when \<open>x\<close> is no status's label.  The rating is the number of filled stars in
  the fourth part: 0 when that part has none (as with \<^verbatim>\<open>Not Rated\<close>) or is missing.
\<close>

theorem C7_onOpen_total_with_defaults:
  assumes "parts = map trim (split 124 line)"
  shows "(\<exists>f. onOpen None = Inr f) \<and>
    (\<exists>f. onOpen (Some line) = Inr f \<and>
       (match (parts ! 0) rx_internal_link = None \<and> match (parts ! 0) rx_link = None \<longrightarrow>
          urlInput f = []) \<and>
       typeSelect f =
         (if 1 < length parts then
            (case find (\<lambda>t. icon t = takeWhile (\<lambda>c. \<not> isSpace c) (parts ! 1)) TYPE_OPTIONS of
               None \<Rightarrow> key (hd TYPE_OPTIONS)
             | Some t \<Rightarrow> key t)
          else key (hd TYPE_OPTIONS)) \<and>
       (length parts \<le> 2 \<or>
        \<not> (\<exists>u x v. parts ! 2 = u @ asc ''**'' @ x @ asc ''**'' @ v \<and> x \<noteq> [] \<and> 42 \<notin> set x) \<longrightarrow>
          statusSelect f = key (hd STATUS_ORDER)) \<and>
       (\<forall>u x v.
          2 < length parts \<and> parts ! 2 = u @ asc ''**'' @ x @ asc ''**'' @ v \<and> x \<noteq> [] \<and>
          42 \<notin> set x \<and>
          (\<forall>u' x' v'. parts ! 2 = u' @ asc ''**'' @ x' @ asc ''**'' @ v' \<and> x' \<noteq> [] \<and>
             42 \<notin> set x' \<longrightarrow> length u \<le> length u') \<longrightarrow>
          statusSelect f =
            (case find (\<lambda>s. label s = x) STATUS_ORDER of
               None \<Rightarrow> key (hd STATUS_ORDER)
             | Some s \<Rightarrow> key s)) \<and>
       currentRating f =
         (if 3 < length parts then int (length (filter (\<lambda>c. c = star_filled) (parts ! 3)))
          else 0))"
proof (cases "line = []")
  case True
  then have "parts = [[]]" using assms by (simp add: trim_def)
  with True show ?thesis
    by (simp add: onOpen_def initial_form_def TYPE_OPTIONS_def STATUS_ORDER_def)
next
  case False
  obtain f1 where f1: "prefill_title parts initial_form = Inr f1"
    "typeSelect f1 = typeSelect initial_form" "statusSelect f1 = statusSelect initial_form"
    "currentRating f1 = currentRating initial_form"
    using prefill_title_total [of parts initial_form] by blast
  define f2 where "f2 = f1\<lparr>typeSelect :=
       (if 1 < length parts then
          (case find (\<lambda>t. icon t = takeWhile (\<lambda>c. \<not> isSpace c) (parts ! 1)) TYPE_OPTIONS of
             None \<Rightarrow> typeSelect f1
           | Some t \<Rightarrow> key t)
        else typeSelect f1)\<rparr>"
  have p2: "prefill_type parts f1 = Inr f2"
    unfolding f2_def by (rule prefill_type_exact)
  obtain f3 where f3: "prefill_status parts f2 = Inr f3"
    "typeSelect f3 = typeSelect f2" "currentRating f3 = currentRating f2"
    using prefill_status_total [OF assms, of f2] by blast
  obtain f4 where f4: "prefill_rating parts f3 = Inr f4"
    "typeSelect f4 = typeSelect f3" "statusSelect f4 = statusSelect f3"
    "currentRating f4 =
       (if length parts > 3 then int (length (filter (\<lambda>c. c = star_filled) (parts ! 3)))
        else currentRating f3)"
    using prefill_rating_total [of parts f3] by blast
  have init: "typeSelect initial_form = key (hd TYPE_OPTIONS)"
    "statusSelect initial_form = key (hd STATUS_ORDER)" "currentRating initial_form = 0"
    "urlInput initial_form = []"
    by (simp_all add: initial_form_def)
  have url: "urlInput f4 = []"
    if "match (parts ! 0) rx_internal_link = None \<and> match (parts ! 0) rx_link = None"
  proof -
    have "urlInput f1 = urlInput initial_form"
      using that f1(1) by (rule prefill_title_no_link)
    moreover have "urlInput f2 = urlInput f1" by (simp add: f2_def)
    moreover have "urlInput f3 = urlInput f2" using f3(1) by (rule prefill_status_url)
    moreover have "urlInput f4 = urlInput f3" using f4(1) by (rule prefill_rating_url)
    ultimately show ?thesis using init(4) by simp
  qed
  have run: "onOpen (Some line) = Inr f4"
    using False f1(1) p2 f3(1) f4(1) by (simp add: onOpen_def Let_def bind_def assms)
  have ty: "typeSelect f4 =
      (if 1 < length parts then
         (case find (\<lambda>t. icon t = takeWhile (\<lambda>c. \<not> isSpace c) (parts ! 1)) TYPE_OPTIONS of
            None \<Rightarrow> key (hd TYPE_OPTIONS)
          | Some t \<Rightarrow> key t)
       else key (hd TYPE_OPTIONS))"
  proof -
    have "typeSelect f1 = key (hd TYPE_OPTIONS)" using f1(2) init(1) by simp
    then have "typeSelect f2 =
      (if 1 < length parts then
         (case find (\<lambda>t. icon t = takeWhile (\<lambda>c. \<not> isSpace c) (parts ! 1)) TYPE_OPTIONS of
            None \<Rightarrow> key (hd TYPE_OPTIONS)
          | Some t \<Rightarrow> key t)
       else key (hd TYPE_OPTIONS))"
      unfolding f2_def by (simp split: option.splits)
    moreover have "typeSelect f4 = typeSelect f2" using f4(2) f3(2) by simp
    ultimately show ?thesis by (rule ssubst [rotated])
  qed
  have s2: "statusSelect f2 = key (hd STATUS_ORDER)"
    using f1(3) init(2) by (simp add: f2_def)
  have absent: "statusSelect f4 = key (hd STATUS_ORDER)"
    if "length parts \<le> 2 \<or>
      \<not> (\<exists>u x v. parts ! 2 = u @ asc ''**'' @ x @ asc ''**'' @ v \<and> x \<noteq> [] \<and> 42 \<notin> set x)"
  proof -
    from that have "prefill_status parts f2 = Inr f2" by (rule prefill_status_absent)
    with f3(1) have "f3 = f2" by simp
    with f4(3) s2 show ?thesis by simp
  qed
  have first: "statusSelect f4 =
      (case find (\<lambda>s. label s = x) STATUS_ORDER of
         None \<Rightarrow> key (hd STATUS_ORDER)
       | Some s \<Rightarrow> key s)"
    if "2 < length parts" and "parts ! 2 = u @ asc ''**'' @ x @ asc ''**'' @ v"
      and "x \<noteq> []" and "42 \<notin> set x"
      and "\<forall>u' x' v'. parts ! 2 = u' @ asc ''**'' @ x' @ asc ''**'' @ v' \<and> x' \<noteq> [] \<and>
             42 \<notin> set x' \<longrightarrow> length u \<le> length u'"
    for u x v
  proof -
    from prefill_status_first [OF that, of f2] f3(1)
    have "f3 = f2\<lparr>statusSelect :=
      (case find (\<lambda>s. label s = x) STATUS_ORDER of
         None \<Rightarrow> statusSelect f2
       | Some s \<Rightarrow> key s)\<rparr>" by simp
    with f4(3) s2 show ?thesis by (simp split: option.splits)
  qed
  have rt: "currentRating f4 =
      (if 3 < length parts then int (length (filter (\<lambda>c. c = star_filled) (parts ! 3)))
       else 0)"
    using f4(4) f3(3) f1(4) init(3) by (simp add: f2_def)
  have "\<exists>f. onOpen None = Inr f" by (simp add: onOpen_def)
  with run url ty absent first rt show ?thesis by blast
qed

text \<open>
  The second part of \<open>fallback_line\<close> starts with an icon that is no type's, its third
  part holds the label \<^verbatim>\<open>Done\<close> and its fourth \<^verbatim>\<open>Not Rated\<close>: it is read as
  \<^verbatim>\<open>plain-note\<close>, \<^verbatim>\<open>saved\<close>, 0, without a URL, although the icon of \<^verbatim>\<open>video\<close> and
  \<^verbatim>\<open>**Completed**\<close> stand in its title.
\<close>

theorem C7_fallback_line_witness:
  "\<exists>f. onOpen (Some fallback_line) = Inr f \<and> urlInput f = [] \<and>
     typeSelect f = asc ''plain-note'' \<and> statusSelect f = asc ''saved'' \<and> currentRating f = 0"
proof -
  define ps where "ps = map trim (split 124 fallback_line)"
  have ps: "ps =
      [asc ''### Watch '' @ [0xD83C, 0xDFA5] @ asc '' **Completed** later'',
       0x2753 # asc '' Misc'', [0x2705, 32] @ asc ''**'' @ asc ''Done'' @ asc ''**'' @ [],
       0x26AA # asc '' Not Rated'']"
    by (simp add: ps_def fallback_line_def asc_def trim_def isSpace_def)
  have len: "length ps = 4" by (simp add: ps)
  have p0: "match (ps ! 0) rx_internal_link = None \<and> match (ps ! 0) rx_link = None"
    by (simp add: ps match_def rx_internal_link_def rx_link_def rx_search_absent asc_def)
  have p1: "takeWhile (\<lambda>c. \<not> isSpace c) (ps ! 1) = [0x2753]"
    by (simp add: ps asc_def isSpace_def)
  have p2: "ps ! 2 = [0x2705, 32] @ asc ''**'' @ asc ''Done'' @ asc ''**'' @ []"
    by (simp add: ps)
  have p3: "filter (\<lambda>c. c = star_filled) (ps ! 3) = []"
    by (simp add: ps asc_def star_filled_def)
  have least: "length [0x2705, 32::nat] \<le> length u'"
    if "ps ! 2 = u' @ asc ''**'' @ x' @ asc ''**'' @ v'" for u' x' v'
  proof (cases u')
    case Nil
    with that show ?thesis by (simp add: p2 asc_def)
  next
    case (Cons a u1)
    with that show ?thesis by (cases u1) (simp_all add: p2 asc_def)
  qed
  from C7_onOpen_total_with_defaults [OF ps_def] obtain f where f: "onOpen (Some fallback_line) = Inr f"
    and url: "match (ps ! 0) rx_internal_link = None \<and> match (ps ! 0) rx_link = None \<longrightarrow>
      urlInput f = []"
    and ty: "typeSelect f =
      (if 1 < length ps then
         (case find (\<lambda>t. icon t = takeWhile (\<lambda>c. \<not> isSpace c) (ps ! 1)) TYPE_OPTIONS of
            None \<Rightarrow> key (hd TYPE_OPTIONS)
          | Some t \<Rightarrow> key t)
       else key (hd TYPE_OPTIONS))"
    and st: "\<forall>u x v.
      2 < length ps \<and> ps ! 2 = u @ asc ''**'' @ x @ asc ''**'' @ v \<and> x \<noteq> [] \<and> 42 \<notin> set x \<and>
      (\<forall>u' x' v'. ps ! 2 = u' @ asc ''**'' @ x' @ asc ''**'' @ v' \<and> x' \<noteq> [] \<and> 42 \<notin> set x' \<longrightarrow>
         length u \<le> length u') \<longrightarrow>
      statusSelect f =
        (case find (\<lambda>s. label s = x) STATUS_ORDER of
           None \<Rightarrow> key (hd STATUS_ORDER)
         | Some s \<Rightarrow> key s)"
    and rt: "currentRating f =
      (if 3 < length ps then int (length (filter (\<lambda>c. c = star_filled) (ps ! 3))) else 0)"
    by blast
  have "urlInput f = []" using url p0 by blast
  moreover have "typeSelect f = asc ''plain-note''"
    unfolding ty p1 len by (simp add: TYPE_OPTIONS_def)
  moreover have "statusSelect f = asc ''saved''"
  proof -
    have a: "2 < length ps" by (simp add: len)
    have b: "asc ''Done'' \<noteq> []" "42 \<notin> set (asc ''Done'')" by (simp_all add: asc_def)
    have c: "\<forall>u' x' v'. ps ! 2 = u' @ asc ''**'' @ x' @ asc ''**'' @ v' \<and> x' \<noteq> [] \<and>
        42 \<notin> set x' \<longrightarrow> length [0x2705, 32::nat] \<le> length u'"
      using least by blast
    have "statusSelect f =
        (case find (\<lambda>s. label s = asc ''Done'') STATUS_ORDER of
           None \<Rightarrow> key (hd STATUS_ORDER)
         | Some s \<Rightarrow> key s)"
      by (rule st [rule_format, OF conjI [OF a conjI [OF p2 conjI [OF b(1) conjI [OF b(2) c]]]]])
    then show ?thesis by (simp add: STATUS_ORDER_def asc_def)
  qed
  moreover have "currentRating f = 0"
    unfolding rt p3 by simp
  ultimately show ?thesis using f by blast
qed

text \<open>
  \<^bold>\<open>C10.\<close>  The prefill takes the number of filled stars in the fourth part as the
  rating, without an upper bound: a line with \<open>k > 5\<close> of them is read as rating \<open>k\<close>.
  For such a rating \<^verbatim>\<open>starString\<close> raises a \<^verbatim>\<open>RangeError\<close> (the count \<open>5 - k\<close> of the second
  \<^verbatim>\<open>repeat\<close> is negative), and so does \<^verbatim>\<open>buildLine\<close> on the record submitted from that form.
\<close>

theorem C10_unclamped_rating_raises_on_encode:
  assumes "length (split 124 line) > 3"
    and "k = length (filter (\<lambda>c. c = star_filled) (map trim (split 124 line) ! 3))"
    and "5 < k"
  shows "\<exists>f. onOpen (Some line) = Inr f \<and> currentRating f = int k \<and>
    starString (int k) = Inl RangeError \<and> buildLine v (submit_data f) = Inl RangeError"
proof -
  from onOpen_total [of line] obtain f where f: "onOpen (Some line) = Inr f"
    "currentRating f =
        (if length (split 124 line) > 3
         then int (length (filter (\<lambda>c. c = star_filled) (map trim (split 124 line) ! 3)))
         else 0)" by blast
  with assms have r: "currentRating f = int k" by simp
  with assms(3) have "5 < stars (submit_data f)" by (simp add: submit_data_def)
  then have "buildLine v (submit_data f) = Inl RangeError" by (rule buildLine_above_five)
  moreover have "starString (int k) = Inl RangeError"
    using assms(3) by (simp add: starString_above_five)
  ultimately show ?thesis using f(1) r by blast
qed

text \<open>The line \<open>seven_star_line\<close> is read as rating 7, and cannot be written back.\<close>

theorem C10_seven_stars_witness:
  "\<exists>f. onOpen (Some seven_star_line) = Inr f \<and> currentRating f = 7 \<and>
     starString 7 = Inl RangeError \<and> buildLine no_vault (submit_data f) = Inl RangeError"
proof -
  have a: "length (split 124 seven_star_line) > 3"
    by (simp add: seven_star_line_def asc_def star_filled_def)
  have b: "7 = length (filter (\<lambda>c. c = star_filled) (map trim (split 124 seven_star_line) ! 3))"
    by (simp add: seven_star_line_def asc_def trim_def isSpace_def star_filled_def)
  have c: "5 < (7::nat)" by simp
  show ?thesis
    using C10_unclamped_rating_raises_on_encode [OF a b c, of no_vault] by simp
qed

lemma onOpen_intro_header:
  "onOpen (Some intro_header) =
     Inr \<lparr>typeSelect = asc ''plain-note'', titleInput = asc ''Intro to Rust'',
          urlInput = asc ''https://youtu.be/abc'', statusSelect = asc ''saved'',
          currentRating = 0\<rparr>"
  by (simp add: prefill_defs rx_defs intro_header_def str_defs cat_defs)

lemma onOpen_intro_span:
  "onOpen (Some (intro_header @ nl @ intro_detail)) =
     Inr \<lparr>typeSelect = asc ''plain-note'', titleInput = asc ''Intro to Rust'',
          urlInput = asc ''https://youtu.be/abc'', statusSelect = asc ''saved'',
          currentRating = 0\<rparr>"
  by (simp add: prefill_defs rx_defs intro_header_def intro_detail_def str_defs cat_defs)

lemma edit_reference_intro_note:
  "edit_reference True 1 intro_note = Inr (1, intro_header)"
  "edit_reference True 2 intro_note = Inr (1, intro_header)"
  by (simp_all add: edit_reference_def intro_note_def intro_header_def intro_detail_def
      str_defs ed_defs)

text \<open>
  \<^bold>\<open>C1.\<close>  The claim is that reading back the two lines written for a record gives its
  type, status and rating again.  The code does not: \<^verbatim>\<open>edit-reference\<close> hands the modal the
  header line alone (from a cursor on either line of the record), and the prefill splits
  that line at \<^verbatim>\<open>|\<close> and looks for the type, the status and the rating in its second, third
  and fourth part, where the one-line layout had them.  For the record \<open>intro_to_rust\<close>
  (video, in progress, 3 stars) the form comes up as \<^verbatim>\<open>plain-note\<close>, \<^verbatim>\<open>saved\<close> and 0,
  and so it does when the prefill is given both lines at once.
\<close>

theorem C1_prefill_loses_type_status_rating:
  "buildLine no_vault intro_to_rust = Inr (intro_header @ nl @ intro_detail) \<and>
   edit_reference True 1 intro_note = Inr (1, intro_header) \<and>
   edit_reference True 2 intro_note = Inr (1, intro_header) \<and>
   map_sum id submit_data (onOpen (Some intro_header)) =
     Inr (intro_to_rust\<lparr>type := asc ''plain-note'', status := asc ''saved'', stars := 0\<rparr>) \<and>
   map_sum id submit_data (onOpen (Some (intro_header @ nl @ intro_detail))) =
     Inr (intro_to_rust\<lparr>type := asc ''plain-note'', status := asc ''saved'', stars := 0\<rparr>)"
  unfolding onOpen_intro_header onOpen_intro_span edit_reference_intro_note
    buildLine_intro_to_rust
  by (simp add: submit_data_def intro_to_rust_def str_defs)

section \<open>Deleting a reference\<close>

text \<open>
  \<^bold>\<open>C2.\<close>  The claim is that deleting the record at line \<open>k\<close> removes the lines \<open>k\<close> and
  \<open>k + 1\<close>.  The range that \<^verbatim>\<open>delete-reference\<close> removes ends at the start of line
  \<open>k + 1\<close>: in the note \<open>intro_note\<close>, with the cursor on the header line 1, the header
  goes and its detail line stays behind.
\<close>

theorem C2_delete_keeps_detail_line:
  "delete_reference True 1 intro_note =
     ([asc ''## References'', intro_detail, asc ''Further reading''], ReferenceDeleted)"
  by (simp add: delete_reference_def intro_note_def intro_header_def intro_detail_def
      str_defs ed_defs)

section \<open>Cycling the status\<close>

lemma findIndex_none: "\<forall>x\<in>set xs. \<not> P x \<Longrightarrow> findIndex P xs = - 1"
  by (induction xs) simp_all

lemma findIndex_cong: "\<forall>x\<in>set xs. P x = Q x \<Longrightarrow> findIndex P xs = findIndex Q xs"
  by (induction xs) simp_all

lemma findIndex_distinct:
  "distinct (map f xs) \<Longrightarrow> i < length xs \<Longrightarrow> findIndex (\<lambda>x. f x = f (xs ! i)) xs = int i"
proof (induction xs arbitrary: i)
  case Nil
  then show ?case by simp
next
  case (Cons a xs)
  show ?case
  proof (cases i)
    case 0
    then show ?thesis by simp
  next
    case (Suc j)
    with Cons.prems have j: "j < length xs" and d: "distinct (map f xs)" by simp_all
    have "f (xs ! j) \<in> f ` set xs" using j by simp
    with Cons.prems(1) have ne: "f a \<noteq> f (xs ! j)" by auto
    from Cons.IH [OF d j] show ?thesis using Suc ne by (simp add: Let_def)
  qed
qed

lemma wrapped_label_iff:
  assumes "42 \<notin> set A" "42 \<notin> set L" "42 \<notin> set B" "42 \<notin> set L'" "L' \<noteq> []"
  shows "includes_str (A @ 42 # 42 # L @ 42 # 42 # B) (42 # 42 # L' @ [42, 42]) \<longleftrightarrow> L' = L"
proof
  assume "L' = L"
  then have "A @ 42 # 42 # L @ 42 # 42 # B = A @ (42 # 42 # L' @ [42, 42]) @ B" by simp
  then show "includes_str (A @ 42 # 42 # L @ 42 # 42 # B) (42 # 42 # L' @ [42, 42])"
    unfolding includes_str_iff by blast
next
  assume "includes_str (A @ 42 # 42 # L @ 42 # 42 # B) (42 # 42 # L' @ [42, 42])"
  then obtain u v where e: "A @ 42 # 42 # L @ 42 # 42 # B = u @ (42 # 42 # L' @ [42, 42]) @ v"
    unfolding includes_str_iff by blast
  have cnt: "length (filter (\<lambda>c. c = 42) (A @ 42 # 42 # L @ 42 # 42 # B)) = 4"
    using assms(1-3) by (auto simp: filter_empty_conv)
  have "length (filter (\<lambda>c. c = 42) (u @ (42 # 42 # L' @ [42, 42]) @ v)) =
      length (filter (\<lambda>c. c = 42) u) + 4 + length (filter (\<lambda>c. c = 42) v)"
    using assms(4) by (auto simp: filter_empty_conv)
  with cnt e have "filter (\<lambda>c. c = 42) u = []" by simp
  then have u: "42 \<notin> set u" by (auto simp: filter_empty_conv)
  have "takeWhile (\<lambda>c. c \<noteq> 42) (A @ 42 # 42 # L @ 42 # 42 # B) = A"
    using assms(1) by (rule takeWhile_upto)
  moreover have "takeWhile (\<lambda>c. c \<noteq> 42) (u @ (42 # 42 # L' @ [42, 42]) @ v) = u"
    using takeWhile_upto [OF u] by simp
  ultimately have "u = A" using e by simp
  with e have e2: "L @ 42 # 42 # B = L' @ 42 # 42 # v" by simp
  have "takeWhile (\<lambda>c. c \<noteq> 42) (L @ 42 # 42 # B) = L"
    using assms(2) by (rule takeWhile_upto)
  moreover have "takeWhile (\<lambda>c. c \<noteq> 42) (L' @ 42 # 42 # v) = L'"
    using assms(4) by (rule takeWhile_upto)
  ultimately show "L' = L" using e2 by simp
qed

lemma status_span_replace:
  assumes "124 \<notin> set pre" and "tok \<noteq> []" and "\<forall>x\<in>set tok. \<not> isSpace x"
    and "lbl \<noteq> []" and "\<forall>x\<in>set lbl. \<not> isLineTerminator x \<and> x \<noteq> 42"
  shows "replace (pre @ asc ''| '' @ tok @ asc '' **'' @ lbl @ asc ''**'' @ post) rx_status_span r =
    pre @ r @ post"
proof -
  obtain t ts where tok: "tok = t # ts" using assms(2) by (cases tok) auto
  obtain l ls where lbl: "lbl = l # ls" using assms(4) by (cases lbl) auto
  let ?i = "length pre"
  let ?R4 = "[One (Is 42), One (Is 42), PlusLazy Dot, One (Is 42), One (Is 42)]"
  let ?R3 = "Plus Space # ?R4"
  let ?tail = "32 # 42 # 42 # lbl @ 42 # 42 # post"
  have sp: "isSpace 32" "\<not> isSpace 42" by (simp_all add: isSpace_def)
  have lazy: "rx_match (StarLazy Dot # [One (Is 42), One (Is 42)]) p (ls @ 42 # 42 # post) no_groups =
      Some (p + length ls + 2, no_groups)" for p
    using assms(5) lbl by (intro lazy_run) auto
  have tail: "rx_match (Star NonSpace # ?R3) p ?tail no_groups =
      Some (p + length lbl + 5, no_groups)" for p
    using sp lazy assms(5) lbl by simp
  have run: "rx_match (Star NonSpace # ?R3) p (ts @ ?tail) no_groups =
      Some (p + length ts + length lbl + 5, no_groups)" for p
  proof (rule star_run)
    show "\<forall>x\<in>set ts. cls_ok NonSpace x" using assms(3) tok by simp
    show "rx_match (Star NonSpace # ?R3) (p + length ts) ?tail no_groups =
      Some (p + length ts + length lbl + 5, no_groups)"
      by (rule tail)
  qed
  have m: "rx_match rx_status_span ?i (asc ''| '' @ tok @ asc '' **'' @ lbl @ asc ''**'' @ post) no_groups =
      Some (?i + length tok + length lbl + 7, no_groups)"
    using sp assms(3) tok run by (simp add: rx_status_span_def asc_def)
  define w where "w = asc ''| '' @ tok @ asc '' **'' @ lbl @ asc ''**''"
  have lw: "length w = length tok + length lbl + 7" by (simp add: w_def asc_def)
  have "rx_search rx_status_span 0 (pre @ w @ post) = rx_search rx_status_span (0 + ?i) (w @ post)"
    unfolding rx_status_span_def using assms(1) by (rule rx_search_skip)
  also have "\<dots> = Some (?i, ?i + length w, no_groups)"
    using m by (simp add: asc_def w_def)
  finally have "replace (pre @ w @ post) rx_status_span r = pre @ r @ post"
    by (simp add: replace_def)
  then show ?thesis by (simp add: w_def)
qed

lemma length_STATUS_ORDER: "length STATUS_ORDER = 7"
  by (simp add: STATUS_ORDER_def)

lemma distinct_status_labels: "distinct (map label STATUS_ORDER)"
  by (simp add: STATUS_ORDER_def asc_def)

lemma status_glyphs:
  "\<forall>s\<in>set STATUS_ORDER.
     icon s \<noteq> [] \<and> (\<forall>x\<in>set (icon s). \<not> isSpace x \<and> x \<noteq> 42) \<and>
     label s \<noteq> [] \<and> (\<forall>x\<in>set (label s). \<not> isLineTerminator x \<and> x \<noteq> 42 \<and> x \<noteq> 10)"
  by (simp add: STATUS_ORDER_def asc_def isSpace_def isLineTerminator_def)

lemma cycle_rewrite_step:
  assumes "124 \<notin> set pre" and "42 \<notin> set pre" and "42 \<notin> set post" and "i < 7"
  shows "cycle_rewrite (pre @ status_span (STATUS_ORDER ! i) @ post) =
    (STATUS_ORDER ! ((i + 1) mod 7), pre @ status_span (STATUS_ORDER ! ((i + 1) mod 7)) @ post)"
proof -
  define s where "s = STATUS_ORDER ! i"
  define line where "line = pre @ status_span s @ post"
  have s: "s \<in> set STATUS_ORDER" using assms(4) by (simp add: s_def length_STATUS_ORDER)
  with status_glyphs have g: "icon s \<noteq> []" "\<forall>x\<in>set (icon s). \<not> isSpace x"
    "42 \<notin> set (icon s)" "label s \<noteq> []" "\<forall>x\<in>set (label s). \<not> isLineTerminator x \<and> x \<noteq> 42"
    "42 \<notin> set (label s)"
    by auto
  have shape: "line = (pre @ asc ''| '' @ icon s @ asc '' '') @ 42 # 42 # label s @ 42 # 42 # post"
    by (simp add: line_def status_span_def asc_def)
  have A: "42 \<notin> set (pre @ asc ''| '' @ icon s @ asc '' '')"
    using assms(2) g(3) by (simp add: asc_def)
  have "includes_str line (asc ''**'' @ label x @ asc ''**'') = (label x = label (STATUS_ORDER ! i))"
    if "x \<in> set STATUS_ORDER" for x
  proof -
    from that status_glyphs have "42 \<notin> set (label x)" "label x \<noteq> []" by auto
    from wrapped_label_iff [OF A g(6) assms(3) this]
    show ?thesis by (simp add: shape asc_def s_def)
  qed
  then have "findIndex (\<lambda>x. includes_str line (asc ''**'' @ label x @ asc ''**'')) STATUS_ORDER =
      findIndex (\<lambda>x. label x = label (STATUS_ORDER ! i)) STATUS_ORDER"
    by (intro findIndex_cong) simp
  also have "\<dots> = int i"
    using distinct_status_labels assms(4) by (intro findIndex_distinct) (simp_all add: length_STATUS_ORDER)
  finally have idx: "findIndex (\<lambda>x. includes_str line (asc ''**'' @ label x @ asc ''**'')) STATUS_ORDER = int i" .
  have nxt: "nat ((int i + 1) mod int (length STATUS_ORDER)) = (i + 1) mod 7"
    by (simp add: length_STATUS_ORDER nat_mod_distrib nat_add_distrib)
  have "replace (pre @ asc ''| '' @ icon s @ asc '' **'' @ label s @ asc ''**'' @ post) rx_status_span r =
      pre @ r @ post" for r
    using assms(1) g(1) g(2) g(4) g(5) by (rule status_span_replace)
  then have rep: "replace line rx_status_span r = pre @ r @ post" for r
    by (simp add: line_def status_span_def)
  show ?thesis
    unfolding s_def [symmetric] line_def [symmetric]
    by (simp add: cycle_rewrite_def Let_def idx nxt rep)
qed

lemma cycle_rewrite_iterate:
  assumes "124 \<notin> set pre" and "42 \<notin> set pre" and "42 \<notin> set post" and "i < 7"
  shows "((\<lambda>l. snd (cycle_rewrite l)) ^^ k) (pre @ status_span (STATUS_ORDER ! i) @ post) =
    pre @ status_span (STATUS_ORDER ! ((i + k) mod 7)) @ post"
proof (induction k)
  case 0
  with assms(4) show ?case by simp
next
  case (Suc k)
  have "(i + k) mod 7 < 7" by simp
  from cycle_rewrite_step [OF assms(1-3) this]
  have "snd (cycle_rewrite (pre @ status_span (STATUS_ORDER ! ((i + k) mod 7)) @ post)) =
      pre @ status_span (STATUS_ORDER ! (((i + k) mod 7 + 1) mod 7)) @ post" by simp
  moreover have "((i + k) mod 7 + 1) mod 7 = (i + Suc k) mod 7"
    by (simp add: mod_Suc_eq)
  ultimately show ?case using Suc by simp
qed

lemma getTypeInfo_in: "getTypeInfo k \<in> set TYPE_OPTIONS"
proof (cases "find (\<lambda>t. key t = k) TYPE_OPTIONS")
  case None
  then show ?thesis by (simp add: getTypeInfo_def TYPE_OPTIONS_def)
next
  case (Some t)
  then have "t \<in> set TYPE_OPTIONS" by (auto simp: find_Some_iff)
  with Some show ?thesis by (simp add: getTypeInfo_def)
qed

lemma type_glyphs:
  "\<forall>t\<in>set TYPE_OPTIONS.
     \<forall>x\<in>set (icon t @ label t). x \<noteq> 10 \<and> x \<noteq> 13 \<and> x \<noteq> 42 \<and> x \<noteq> 124"
  by (simp add: TYPE_OPTIONS_def asc_def)

lemma starString_glyphs:
  assumes "starString n = Inr r" and "x \<in> set r"
  shows "x \<noteq> 10 \<and> x \<noteq> 13 \<and> x \<noteq> 42 \<and> x \<noteq> 124"
proof (cases "n = 0")
  case True
  with assms show ?thesis by (auto simp: starString_def asc_def)
next
  case False
  with assms(1) have "r = replicate (nat n) star_filled @ replicate (nat (5 - n)) star_empty"
    by (auto simp: starString_def repeat_def concat_replicate_unit split: if_splits)
  with assms(2) show ?thesis by (auto simp: star_filled_def star_empty_def)
qed

lemma last_split: "sep \<notin> set b \<Longrightarrow> last (split sep (a @ sep # b)) = b"
  by (simp add: split_append split_no_sep)

lemma buildLine_detail:
  assumes "buildLine v d = Inr span" and "starString (stars d) = Inr rating"
  shows "last (split 10 span) =
    (icon (getTypeInfo (type d)) @ asc '' '' @ label (getTypeInfo (type d)) @ asc '' '') @
    status_span (getStatusInfo (status d)) @ asc '' | '' @ rating"
proof -
  let ?t = "getTypeInfo (type d)" and ?s = "getStatusInfo (status d)"
  let ?detail = "icon ?t @ asc '' '' @ label ?t @ asc '' | '' @ icon ?s @ asc '' **'' @ label ?s @
    asc ''** | '' @ rating"
  from assms obtain link where span: "span = (asc ''### '' @ link) @ 10 # ?detail"
    by (auto simp: buildLine_def Let_def nl_def)
  have "?s \<in> set STATUS_ORDER"
  proof (cases "find (\<lambda>s. key s = status d) STATUS_ORDER")
    case None
    then show ?thesis by (simp add: getStatusInfo_def STATUS_ORDER_def)
  next
    case (Some t)
    then have "t \<in> set STATUS_ORDER" by (auto simp: find_Some_iff)
    with Some show ?thesis by (simp add: getStatusInfo_def)
  qed
  with status_glyphs have "10 \<notin> set (icon ?s)" "10 \<notin> set (label ?s)"
    by (auto simp: isSpace_def)
  moreover have "10 \<notin> set (icon ?t @ label ?t)"
    using type_glyphs getTypeInfo_in [of "type d"] by blast
  moreover have "10 \<notin> set rating"
    using starString_glyphs [OF assms(2)] by blast
  ultimately have "10 \<notin> set ?detail" by (simp add: asc_def)
  then have "last (split 10 span) = ?detail" unfolding span by (rule last_split)
  then show ?thesis by (simp add: status_span_def asc_def)
qed

text \<open>
  \<^bold>\<open>C4.\<close>  On the detail line of any record that \<^verbatim>\<open>buildLine\<close> encodes (its last line), the
  rewrite of lines 123 to 125 applied \<open>k\<close> times changes the status span to the status
  \<open>k\<close> places further in \<^verbatim>\<open>STATUS_ORDER\<close>, cyclically, and nothing else: the type field before
  the span and the separator and rating after it stay as they are for every \<open>k\<close>.  Seven
  applications give the line back.
\<close>

theorem C4_seven_advances_restore_detail_line:
  assumes "buildLine v d = Inr span" and "starString (stars d) = Inr rating"
    and "getStatusInfo (status d) = STATUS_ORDER ! i" and "i < 7"
  shows "(\<forall>k. ((\<lambda>l. snd (cycle_rewrite l)) ^^ k) (last (split 10 span)) =
            (icon (getTypeInfo (type d)) @ asc '' '' @ label (getTypeInfo (type d)) @ asc '' '') @
            status_span (STATUS_ORDER ! ((i + k) mod 7)) @ asc '' | '' @ rating) \<and>
         ((\<lambda>l. snd (cycle_rewrite l)) ^^ 7) (last (split 10 span)) = last (split 10 span)"
proof -
  let ?pre = "icon (getTypeInfo (type d)) @ asc '' '' @ label (getTypeInfo (type d)) @ asc '' ''"
  let ?post = "asc '' | '' @ rating"
  have line: "last (split 10 span) = ?pre @ status_span (STATUS_ORDER ! i) @ ?post"
    using buildLine_detail [OF assms(1,2)] assms(3) by simp
  have t: "\<forall>x\<in>set (icon (getTypeInfo (type d)) @ label (getTypeInfo (type d))). x \<noteq> 42 \<and> x \<noteq> 124"
    using type_glyphs getTypeInfo_in [of "type d"] by blast
  have pre: "124 \<notin> set ?pre" "42 \<notin> set ?pre" using t by (auto simp: asc_def)
  have post: "42 \<notin> set ?post" using starString_glyphs [OF assms(2)] by (auto simp: asc_def)
  have it: "((\<lambda>l. snd (cycle_rewrite l)) ^^ k) (last (split 10 span)) =
      ?pre @ status_span (STATUS_ORDER ! ((i + k) mod 7)) @ ?post" for k
    unfolding line using pre post assms(4) by (rule cycle_rewrite_iterate)
  have "(i + 7) mod 7 = i" using assms(4) by simp
  with it [of 7] line have "((\<lambda>l. snd (cycle_rewrite l)) ^^ 7) (last (split 10 span)) = last (split 10 span)"
    by simp
  with it show ?thesis by blast
qed

text \<open>
  From \<^verbatim>\<open>**In Progress**\<close>, three advances give \<^verbatim>\<open>**Maybe Useful**\<close> and seven give the
  line back.
\<close>

theorem C4_intro_detail_witness:
  "((\<lambda>l. snd (cycle_rewrite l)) ^^ 3) intro_detail = maybe_useful_detail \<and>
   ((\<lambda>l. snd (cycle_rewrite l)) ^^ 7) intro_detail = intro_detail"
proof -
  have a: "buildLine no_vault intro_to_rust = Inr (intro_header @ nl @ intro_detail)"
    by (rule buildLine_intro_to_rust)
  have b: "starString (stars intro_to_rust) = Inr [0x2605, 0x2605, 0x2605, 0x2606, 0x2606]"
    by (simp add: intro_to_rust_def starString_valid three_of_five)
  have c: "getStatusInfo (status intro_to_rust) = STATUS_ORDER ! 2"
    by (simp add: intro_to_rust_def getStatusInfo_in_progress STATUS_ORDER_def)
  have d: "(2::nat) < 7" by simp
  have l: "last (split 10 (intro_header @ nl @ intro_detail)) = intro_detail"
    by (simp add: intro_header_def intro_detail_def nl_def asc_def)
  have t: "type intro_to_rust = asc ''video''" by (simp add: intro_to_rust_def)
  from C4_seven_advances_restore_detail_line [OF a b c d] have
    "((\<lambda>l. snd (cycle_rewrite l)) ^^ 3) intro_detail =
       (icon (getTypeInfo (type intro_to_rust)) @ asc '' '' @
        label (getTypeInfo (type intro_to_rust)) @ asc '' '') @
       status_span (STATUS_ORDER ! ((2 + 3) mod 7)) @ asc '' | '' @
       [0x2605, 0x2605, 0x2605, 0x2606, 0x2606]"
    and seven: "((\<lambda>l. snd (cycle_rewrite l)) ^^ 7) intro_detail = intro_detail"
    unfolding l by blast+
  then have "((\<lambda>l. snd (cycle_rewrite l)) ^^ 3) intro_detail = maybe_useful_detail"
    unfolding t getTypeInfo_video
    by (simp add: status_span_def STATUS_ORDER_def maybe_useful_detail_def asc_def)
  with seven show ?thesis by simp
qed

text \<open>
  The rewrite of lines 123 to 125 alone, on a line in which no label of \<^verbatim>\<open>STATUS_ORDER\<close>
  occurs between \<^verbatim>\<open>**\<close>: the search gives \<open>-1\<close>, the next status is the first entry,
  \<^verbatim>\<open>Saved/Unprocessed\<close>, and a status field \<^verbatim>\<open>| token **label**\<close> after a text without \<^verbatim>\<open>|\<close>
  is rewritten to the first entry's icon and label.  So it is with the detail line that
  holds the label \<^verbatim>\<open>Done\<close>.
\<close>

lemma cycle_rewrite_unknown_label:
  assumes "\<forall>s\<in>set STATUS_ORDER. \<not> includes_str line (asc ''**'' @ label s @ asc ''**'')"
  shows "fst (cycle_rewrite line) = hd STATUS_ORDER \<and>
    label (hd STATUS_ORDER) = asc ''Saved/Unprocessed'' \<and>
    (\<forall>pre tok lbl post.
       line = pre @ asc ''| '' @ tok @ asc '' **'' @ lbl @ asc ''**'' @ post \<and>
       124 \<notin> set pre \<and> tok \<noteq> [] \<and> (\<forall>x\<in>set tok. \<not> isSpace x) \<and>
       lbl \<noteq> [] \<and> (\<forall>x\<in>set lbl. \<not> isLineTerminator x \<and> x \<noteq> 42) \<longrightarrow>
       snd (cycle_rewrite line) =
         pre @ asc ''| '' @ [0xD83D, 0xDCE5] @ asc '' **Saved/Unprocessed**'' @ post)"
proof -
  have idx: "findIndex (\<lambda>s. includes_str line (asc ''**'' @ label s @ asc ''**'')) STATUS_ORDER = - 1"
    using assms by (rule findIndex_none)
  have "STATUS_ORDER \<noteq> []" by (simp add: STATUS_ORDER_def)
  then have nxt: "STATUS_ORDER ! 0 = hd STATUS_ORDER"
    by (simp add: hd_conv_nth)
  have first: "fst (cycle_rewrite line) = hd STATUS_ORDER"
    by (simp add: cycle_rewrite_def Let_def idx nxt)
  have second: "snd (cycle_rewrite line) = replace line rx_status_span (status_span (hd STATUS_ORDER))"
    by (simp add: cycle_rewrite_def Let_def idx nxt)
  have span: "status_span (hd STATUS_ORDER) = asc ''| '' @ [0xD83D, 0xDCE5] @ asc '' **Saved/Unprocessed**''"
    by (simp add: status_span_def STATUS_ORDER_def asc_def)
  have "snd (cycle_rewrite line) =
         pre @ asc ''| '' @ [0xD83D, 0xDCE5] @ asc '' **Saved/Unprocessed**'' @ post"
    if "line = pre @ asc ''| '' @ tok @ asc '' **'' @ lbl @ asc ''**'' @ post"
      and "124 \<notin> set pre" and "tok \<noteq> []" and "\<forall>x\<in>set tok. \<not> isSpace x"
      and "lbl \<noteq> []" and "\<forall>x\<in>set lbl. \<not> isLineTerminator x \<and> x \<noteq> 42"
    for pre tok lbl post
  proof -
    have "replace line rx_status_span (status_span (hd STATUS_ORDER)) =
        pre @ status_span (hd STATUS_ORDER) @ post"
      unfolding that(1) by (rule status_span_replace [OF that(2-6)])
    with second show ?thesis by (simp add: span)
  qed
  moreover have "label (hd STATUS_ORDER) = asc ''Saved/Unprocessed''"
    by (simp add: STATUS_ORDER_def)
  ultimately show ?thesis using first by blast
qed

lemma cycle_rewrite_done_detail:
  "fst (cycle_rewrite done_detail) = hd STATUS_ORDER \<and>
   snd (cycle_rewrite done_detail) = saved_detail"
proof -
  have a: "\<forall>s\<in>set STATUS_ORDER. \<not> includes_str done_detail (asc ''**'' @ label s @ asc ''**'')"
    by (simp add: STATUS_ORDER_def done_detail_def asc_def)
  have b: "done_detail = ([0xD83C, 0xDFA5] @ asc '' Video '') @ asc ''| '' @ [0x2705] @ asc '' **'' @
      asc ''Done'' @ asc ''**'' @ (asc '' | '' @ [0x2605, 0x2605, 0x2605, 0x2606, 0x2606])"
    by (simp add: done_detail_def asc_def)
  have c: "124 \<notin> set ([0xD83C, 0xDFA5] @ asc '' Video '')" "[0x2705::nat] \<noteq> []"
    "\<forall>x\<in>set [0x2705]. \<not> isSpace x" "asc ''Done'' \<noteq> []"
    "\<forall>x\<in>set (asc ''Done''). \<not> isLineTerminator x \<and> x \<noteq> 42"
    by (simp_all add: asc_def isSpace_def isLineTerminator_def)
  from cycle_rewrite_unknown_label [OF a] b c
  have "fst (cycle_rewrite done_detail) = hd STATUS_ORDER"
    and "snd (cycle_rewrite done_detail) =
      ([0xD83C, 0xDFA5] @ asc '' Video '') @ asc ''| '' @ [0xD83D, 0xDCE5] @
      asc '' **Saved/Unprocessed**'' @ (asc '' | '' @ [0x2605, 0x2605, 0x2605, 0x2606, 0x2606])"
    by blast+
  then show ?thesis by (simp add: saved_detail_def asc_def)
qed

text \<open>
  The callback runs that rewrite on a cursor line only when the line starts with \<^verbatim>\<open>###\<close>.
  Any other line it refuses, and the document stays as it is; a line in the one-line
  layout, with the status on the \<^verbatim>\<open>###\<close> line, it does reset.
\<close>

lemma cycle_ref_status_refuses:
  assumes "getLine doc n = Some line" and "\<not> startsWith (trim line) (asc ''###'')"
  shows "cycle_ref_status True n doc = (doc, PlaceCursor)"
  using assms by (simp add: cycle_ref_status_def)

lemma cycle_ref_status_one_line:
  "cycle_ref_status True 0 [done_one_line] =
     ([saved_one_line], StatusTo (asc ''Saved/Unprocessed''))"
  by (simp add: cycle_ref_status_def cycle_rewrite_def Let_def status_span_def
      rx_status_span_def rx_defs done_one_line_def saved_one_line_def str_defs cat_defs ed_defs)

text \<open>
  \<^bold>\<open>C5.\<close>  The claim is that on a detail line without a known label between \<^verbatim>\<open>**\<close> the
  status advance sets the status to the first entry.  The rewrite of lines 123 to 125
  would (\<open>cycle_rewrite_done_detail\<close>), but the command never runs it on a detail line:
  in the note \<open>done_note\<close>, whose record has the detail line with the label \<^verbatim>\<open>Done\<close>, the
  command on that line (line 2) shows the notice to place the cursor and changes nothing,
  and on the header line (line 1) it announces \<^verbatim>\<open>Saved/Unprocessed\<close> and leaves the
  detail line with \<^verbatim>\<open>Done\<close> as it was.
\<close>

theorem C5_unknown_label_is_never_reset:
  "cycle_ref_status True 2 done_note = (done_note, PlaceCursor) \<and>
   cycle_ref_status True 1 done_note = (done_note, StatusTo (asc ''Saved/Unprocessed''))"
  by (simp add: cycle_ref_status_def cycle_rewrite_def Let_def status_span_def
      rx_status_span_def rx_defs done_note_def done_detail_def intro_header_def
      str_defs cat_defs ed_defs)

lemma cycle_rewrite_completed:
  "cycle_rewrite completed_detail = (STATUS_ORDER ! 5, maybe_useful_detail)"
  by (simp add: cycle_rewrite_def Let_def status_span_def rx_status_span_def rx_defs
      completed_detail_def maybe_useful_detail_def str_defs cat_defs)

text \<open>
  \<^bold>\<open>C3.\<close>  The claim is that the status advance turns the detail line with
  \<^verbatim>\<open>**Completed**\<close> into the one with \<^verbatim>\<open>**Maybe Useful**\<close> and touches nothing else.  The
  rewrite of lines 123 to 125 would (\<open>cycle_rewrite_completed\<close>), but the callback only
  runs it on a cursor line that starts with \<^verbatim>\<open>###\<close>, which a detail line never does.  In
  the note \<open>completed_note\<close>, the command on the detail line (line 2) shows the notice to
  place the cursor and changes nothing; on the header line (line 1) it finds no status,
  announces \<^verbatim>\<open>Saved/Unprocessed\<close> and leaves both lines as they were.
\<close>

theorem C3_cycle_never_reaches_detail_line:
  "cycle_ref_status True 2 completed_note = (completed_note, PlaceCursor) \<and>
   cycle_ref_status True 1 completed_note = (completed_note, StatusTo (asc ''Saved/Unprocessed''))"
  by (simp add: cycle_ref_status_def cycle_rewrite_def Let_def status_span_def
      rx_status_span_def rx_defs completed_note_def completed_detail_def intro_header_def
      str_defs cat_defs ed_defs)

section \<open>Inserting references\<close>

declare insertPos_loop.simps [simp del]

lemma findIndex_append_first:
  "\<forall>x\<in>set xs. \<not> P x \<Longrightarrow> P y \<Longrightarrow> findIndex P (xs @ y # ys) = int (length xs)"
  by (induction xs) (simp_all add: Let_def)

lemma includes_str_refl: "includes_str s s"
proof -
  have "s = [] @ s @ []" by simp
  then show ?thesis unfolding includes_str_iff by blast
qed

lemma split_lines_no_cr: "13 \<notin> set s \<Longrightarrow> split_lines s = split 10 s"
  by (induction s rule: split_lines.induct) (auto split: list.splits)

lemma set_join: "x \<in> set (join sep ls) \<Longrightarrow> x = sep \<or> (\<exists>l\<in>set ls. x \<in> set l)"
  by (induction sep ls rule: join.induct) auto

lemma includes_str_set: "includes_str s p \<Longrightarrow> x \<in> set p \<Longrightarrow> x \<in> set s"
  by (auto simp: includes_str_iff)

lemma wf_doc_lines: "wf_doc doc \<Longrightarrow> doc \<noteq> [] \<and> list_all (\<lambda>l. 10 \<notin> set l) doc"
  by (auto simp: wf_doc_def list_all_iff)

lemma wf_doc_value: "wf_doc doc \<Longrightarrow> split 10 (getValue doc) = doc"
  using wf_doc_lines [of doc] by (simp add: getValue_def split_join)

lemma wf_doc_no_cr: "wf_doc doc \<Longrightarrow> 13 \<notin> set (getValue doc)"
  using set_join [of 13 10 doc] by (auto simp: wf_doc_def getValue_def list_all_iff)

lemma wf_doc_setValue: "wf_doc doc \<Longrightarrow> setValue (getValue doc) = doc"
  by (simp add: setValue_def split_lines_no_cr wf_doc_no_cr wf_doc_value)

lemma test_references_value:
  assumes "l \<in> set doc" and "test rx_references l"
  shows "test rx_references (getValue doc)"
proof -
  have "includes_str (getValue doc) l"
    using assms(1) by (simp add: getValue_def includes_str_join)
  moreover have "includes_str l (asc ''## References'')"
    using assms(2) by (simp add: rx_references_def test_lit)
  ultimately have "includes_str (getValue doc) (asc ''## References'')"
    by (rule includes_str_trans)
  then show ?thesis by (simp add: rx_references_def test_lit)
qed

lemma append_at_end:
  assumes "wf_doc doc" and "10 \<notin> set text" and "13 \<notin> set text"
  shows "replaceRange (nl @ text @ nl) (lastLine doc + 1, 0) (lastLine doc + 1, 0) doc =
    doc @ [text, []]"
proof -
  have "doc \<noteq> []" using assms(1) by (simp add: wf_doc_def)
  then have "lastLine doc + 1 \<ge> length doc" by (simp add: lastLine_def)
  then have off: "posToOffset doc (Suc (lastLine doc), 0) = length (getValue doc)"
    by (simp add: posToOffset_def)
  have "13 \<notin> set (getValue doc @ 10 # (text @ 10 # []))"
    using wf_doc_no_cr [OF assms(1)] assms(3) by simp
  then have "replaceRange (nl @ text @ nl) (lastLine doc + 1, 0) (lastLine doc + 1, 0) doc =
      split 10 (getValue doc @ 10 # (text @ 10 # []))"
    using split_lines_no_cr [of "getValue doc @ 10 # (text @ 10 # [])"]
    by (simp add: replaceRange_def off setValue_def nl_def)
  also have "\<dots> = split 10 (getValue doc) @ split 10 text @ split 10 []"
    by (simp only: split_append)
  also have "\<dots> = doc @ [text, []]"
    using assms(1,2) by (simp add: wf_doc_value split_no_sep)
  finally show ?thesis .
qed


lemma insertPos_loop_stop:
  "rest = [] \<or> \<not> startsWith (hd rest) (asc ''###'') \<Longrightarrow>
   insertPos_loop (a @ rest) (length a) = length a"
  by (subst insertPos_loop.simps) (cases rest; simp add: nth_append)

lemma insertPos_loop_spans:
  assumes "\<forall>(h, dl)\<in>set ps. startsWith h (asc ''###'') \<and> \<not> startsWith dl (asc ''###'') \<and> trim dl \<noteq> []"
    and "rest = [] \<or> \<not> startsWith (hd rest) (asc ''###'')"
  shows "insertPos_loop (a @ span_lines ps @ rest) (length a) = length a + 2 * length ps"
  using assms(1)
proof (induction ps arbitrary: a)
  case Nil
  then show ?case using insertPos_loop_stop [OF assms(2), of a] by (simp add: span_lines_def)
next
  case (Cons p ps)
  obtain h dl where p: "p = (h, dl)" by (cases p)
  with Cons.prems have hd: "startsWith h (asc ''###'')" "\<not> startsWith dl (asc ''###'')" "trim dl \<noteq> []"
    and sp: "\<forall>(h, dl)\<in>set ps. startsWith h (asc ''###'') \<and> \<not> startsWith dl (asc ''###'') \<and> trim dl \<noteq> []"
    by auto
  define lines where "lines = a @ span_lines (p # ps) @ rest"
  have l: "lines = (a @ [h, dl]) @ span_lines ps @ rest" by (simp add: lines_def span_lines_def p)
  have n0: "lines ! length a = h" by (simp add: l nth_append)
  have n1: "lines ! Suc (length a) = dl" by (simp add: l nth_append)
  have len: "length a < length lines" "Suc (length a) < length lines" by (simp_all add: l)
  have "insertPos_loop lines (length a) = insertPos_loop lines (Suc (Suc (length a)))"
    by (subst insertPos_loop.simps) (simp add: Let_def hd n0 n1 len)
  also have "\<dots> = insertPos_loop ((a @ [h, dl]) @ span_lines ps @ rest) (length (a @ [h, dl]))"
    by (simp add: l)
  also have "\<dots> = length (a @ [h, dl]) + 2 * length ps"
    using sp by (rule Cons.IH)
  finally have "insertPos_loop lines (length a) = length (a @ [h, dl]) + 2 * length ps" .
  then show ?case by (simp add: lines_def)
qed

lemma length_span_lines: "length (span_lines ps) = 2 * length ps"
  by (induction ps) (auto simp: span_lines_def)

lemma insert_core:
  assumes "wf_doc (pre @ hdg # span_lines ps @ rest)"
    and "\<forall>l\<in>set pre. \<not> test rx_references l" and "test rx_references hdg"
    and "\<forall>(h, dl)\<in>set ps. startsWith h (asc ''###'') \<and> \<not> startsWith dl (asc ''###'') \<and> trim dl \<noteq> []"
    and "rest = [] \<or> \<not> startsWith (hd rest) (asc ''###'')"
    and "13 \<notin> set span"
  defines "E \<equiv> pre @ hdg # span_lines ps @ rest"
  shows "split 10 (getValue E) = E"
    and "findIndex (\<lambda>l. test rx_references l) E = int (length pre)"
    and "insertPos_loop E (Suc (length pre)) = Suc (length pre + 2 * length ps)"
    and "setValue (join 10 (take (Suc (length pre + 2 * length ps)) E @ split 10 span @
           drop (Suc (length pre + 2 * length ps)) E)) =
         pre @ hdg # span_lines ps @ split 10 span @ rest"
proof -
  show "split 10 (getValue E) = E" using assms(1) unfolding E_def by (rule wf_doc_value)
  show "findIndex (\<lambda>l. test rx_references l) E = int (length pre)"
    unfolding E_def using assms(2,3) by (rule findIndex_append_first)
  have "insertPos_loop ((pre @ [hdg]) @ span_lines ps @ rest) (length (pre @ [hdg])) =
      length (pre @ [hdg]) + 2 * length ps"
    using assms(4,5) by (rule insertPos_loop_spans)
  then show "insertPos_loop E (Suc (length pre)) = Suc (length pre + 2 * length ps)"
    by (simp add: E_def)
  have E: "E = (pre @ hdg # span_lines ps) @ rest" by (simp add: E_def)
  have len: "Suc (length pre + 2 * length ps) = length (pre @ hdg # span_lines ps)"
    by (simp add: length_span_lines)
  have td: "take (Suc (length pre + 2 * length ps)) E = pre @ hdg # span_lines ps"
    "drop (Suc (length pre + 2 * length ps)) E = rest"
    unfolding len E by simp_all
  have "list_all (\<lambda>l. 10 \<notin> set l \<and> 13 \<notin> set l) (split 10 span)"
    using assms(6) includes_str_set [OF includes_str_split, of _ 10 span 13]
    by (auto simp: list_all_iff split_free)
  with assms(1) have "wf_doc ((pre @ hdg # span_lines ps) @ split 10 span @ rest)"
    by (simp add: wf_doc_def)
  then have "setValue (getValue ((pre @ hdg # span_lines ps) @ split 10 span @ rest)) =
      (pre @ hdg # span_lines ps) @ split 10 span @ rest"
    by (rule wf_doc_setValue)
  then show "setValue (join 10 (take (Suc (length pre + 2 * length ps)) E @ split 10 span @
           drop (Suc (length pre + 2 * length ps)) E)) =
         pre @ hdg # span_lines ps @ split 10 span @ rest"
    unfolding td by (simp add: getValue_def)
qed


lemma no_line_matches:
  assumes "\<not> test rx_references (getValue doc)"
  shows "\<forall>l\<in>set doc. \<not> test rx_references l"
  using assms test_references_value by blast

lemma insertLine_absent:
  assumes "wf_doc doc" and "\<not> test rx_references (getValue doc)" and "buildLine v d = Inr span"
    and "13 \<notin> set span"
  shows "insertLine v d doc = Inr (doc @ [asc ''## References''] @ split 10 span @ [[]])"
proof -
  let ?hdg = "asc ''## References''"
  have h: "10 \<notin> set ?hdg" "13 \<notin> set ?hdg" by (simp_all add: asc_def)
  have e1: "replaceRange (nl @ ?hdg @ nl) (lastLine doc + 1, 0) (lastLine doc + 1, 0) doc =
      doc @ ?hdg # span_lines [] @ [[]]"
    using append_at_end [OF assms(1) h] by (simp add: span_lines_def)
  have wf: "wf_doc (doc @ ?hdg # span_lines [] @ [[]])"
    using assms(1) h by (simp add: wf_doc_def span_lines_def)
  have th: "test rx_references ?hdg"
    by (simp add: rx_references_def test_lit includes_str_refl)
  have ps: "\<forall>(h, dl)\<in>set []. startsWith h (asc ''###'') \<and> \<not> startsWith dl (asc ''###'') \<and> trim dl \<noteq> []"
    by simp
  have rest: "[[]] = [] \<or> \<not> startsWith (hd [[]]) (asc ''###'')"
    by (simp add: startsWith_def asc_def)
  define E where "E = doc @ ?hdg # span_lines [] @ [[]]"
  note core = insert_core [OF wf no_line_matches [OF assms(2)] th ps rest assms(4), folded E_def, simplified]
  have "insertLine v d doc = Inr (doc @ ?hdg # span_lines [] @ split 10 span @ [[]])"
    unfolding insertLine_def Let_def e1 [folded E_def]
    by (simp add: assms(2,3) core nat_add_distrib)
  then show ?thesis by (simp add: span_lines_def)
qed

lemma set_replace_empty: "x \<in> set (replace s rs []) \<Longrightarrow> x \<in> set s"
  by (auto simp: replace_def split: option.splits dest: in_set_takeD in_set_dropD)

lemma trim_nonempty:
  assumes "x \<in> set s" and "\<not> isSpace x"
  shows "trim s \<noteq> []"
proof -
  have "dropWhile isSpace s \<noteq> []" using assms by (auto simp: dropWhile_eq_Nil_conv)
  then have "\<not> isSpace (hd (dropWhile isSpace s))" by (rule hd_dropWhile)
  moreover have "hd (dropWhile isSpace s) \<in> set (rev (dropWhile isSpace s))"
    using \<open>dropWhile isSpace s \<noteq> []\<close> by simp
  ultimately have "dropWhile isSpace (rev (dropWhile isSpace s)) \<noteq> []"
    by (auto simp: dropWhile_eq_Nil_conv)
  then show ?thesis by (simp add: trim_def)
qed

lemma type_icon_first:
  "\<forall>t\<in>set TYPE_OPTIONS. \<exists>a r. icon t = a # r \<and> a \<noteq> 35 \<and> \<not> isSpace a"
  by (simp add: TYPE_OPTIONS_def isSpace_def)

lemma getStatusInfo_in: "getStatusInfo k \<in> set STATUS_ORDER"
proof (cases "find (\<lambda>s. key s = k) STATUS_ORDER")
  case None
  then show ?thesis by (simp add: getStatusInfo_def STATUS_ORDER_def)
next
  case (Some t)
  then have "t \<in> set STATUS_ORDER" by (auto simp: find_Some_iff)
  with Some show ?thesis by (simp add: getStatusInfo_def)
qed

lemma buildLine_valid:
  assumes "0 \<le> stars d" and "stars d \<le> 5"
  shows "\<exists>span. buildLine v d = Inr span"
  using assms by (simp add: buildLine_def Let_def starString_valid)

lemma buildLine_two_lines:
  assumes "0 \<le> stars d" and "stars d \<le> 5"
    and "10 \<notin> set (title d @ url d)" and "13 \<notin> set (title d @ url d)"
  shows "\<exists>h dl. buildLine v d = Inr (h @ 10 # dl) \<and> 10 \<notin> set h \<and> 10 \<notin> set dl \<and>
    13 \<notin> set h \<and> 13 \<notin> set dl \<and>
    startsWith h (asc ''###'') \<and> \<not> startsWith dl (asc ''###'') \<and> trim dl \<noteq> []"
proof -
  let ?t = "getTypeInfo (type d)" and ?s = "getStatusInfo (status d)"
  obtain rating where rating: "starString (stars d) = Inr rating"
    using assms(1,2) by (simp add: starString_valid)
  define link where "link =
    (if type d = asc ''plain-note'' \<and> url d \<noteq> [] then
       (case v (url d) of
          Some (TFile noteName) \<Rightarrow>
            (let linkPath = replace (url d) rx_md [] in
             if trim (title d) = noteName then asc ''[['' @ linkPath @ asc '']]''
             else asc ''[['' @ linkPath @ asc ''|'' @ title d @ asc '']]'')
        | _ \<Rightarrow> asc ''['' @ title d @ asc ''](''  @ url d @ asc '')'')
     else if url d \<noteq> [] then asc ''['' @ title d @ asc ''](''  @ url d @ asc '')'' else title d)"
  define h where "h = asc ''### '' @ link"
  define dl where "dl = icon ?t @ asc '' '' @ label ?t @ asc '' | '' @ icon ?s @ asc '' **'' @
    label ?s @ asc ''** | '' @ rating"
  have b: "buildLine v d = Inr (h @ 10 # dl)"
    by (simp add: buildLine_def Let_def rating h_def dl_def link_def nl_def)
  have "10 \<notin> set link"
    using assms(3) set_replace_empty [of 10 "url d" rx_md]
    by (auto simp: link_def asc_def Let_def split: option.splits TAbstractFile.splits)
  then have h10: "10 \<notin> set h" by (simp add: h_def asc_def)
  have "13 \<notin> set link"
    using assms(4) set_replace_empty [of 13 "url d" rx_md]
    by (auto simp: link_def asc_def Let_def split: option.splits TAbstractFile.splits)
  then have h13: "13 \<notin> set h" by (simp add: h_def asc_def)
  have "\<forall>x\<in>set (icon ?s @ label ?s). x \<noteq> 10 \<and> x \<noteq> 13"
    using status_glyphs getStatusInfo_in [of "status d"]
    by (auto simp: isSpace_def isLineTerminator_def)
  moreover have "\<forall>x\<in>set (icon ?t @ label ?t). x \<noteq> 10 \<and> x \<noteq> 13"
    using type_glyphs getTypeInfo_in [of "type d"] by blast
  moreover have "\<forall>x\<in>set rating. x \<noteq> 10 \<and> x \<noteq> 13"
    using starString_glyphs [OF rating] by blast
  ultimately have d10: "10 \<notin> set dl" "13 \<notin> set dl" by (auto simp: dl_def asc_def)
  obtain a r where a: "icon ?t = a # r" "a \<noteq> 35" "\<not> isSpace a"
    using type_icon_first getTypeInfo_in [of "type d"] by blast
  have hs: "startsWith h (asc ''###'')" by (simp add: h_def startsWith_def asc_def)
  have ds: "\<not> startsWith dl (asc ''###'')"
    using a by (simp add: dl_def startsWith_def asc_def)
  have "a \<in> set dl" using a by (simp add: dl_def)
  then have "trim dl \<noteq> []" using a(3) by (rule trim_nonempty)
  with b h10 h13 d10 hs ds show ?thesis by blast
qed

text \<open>
  \<^bold>\<open>C8.\<close>  When the text of the document does not contain \<^verbatim>\<open>## References\<close>, \<^verbatim>\<open>insertLine\<close>
  (for a record with a rating in 0..5 and a title and URL without line breaks) does not
  raise: it appends a line break, the heading and a line break to the text, so that the
  heading becomes a new line right after the last line of the document and an empty line
  ends the document, and it puts the two lines of the encoded record directly after the
  heading.
\<close>

theorem C8_missing_heading_is_appended:
  assumes "wf_doc doc" and "\<not> test rx_references (getValue doc)"
    and "0 \<le> stars d" and "stars d \<le> 5"
    and "10 \<notin> set (title d @ url d)" and "13 \<notin> set (title d @ url d)"
  shows "\<exists>span. buildLine v d = Inr span \<and> length (split 10 span) = 2 \<and>
    insertLine v d doc = Inr (doc @ [asc ''## References''] @ split 10 span @ [[]])"
proof -
  from buildLine_two_lines [OF assms(3-6), of v] obtain h dl where
    b: "buildLine v d = Inr (h @ 10 # dl)" and n: "10 \<notin> set h" "10 \<notin> set dl"
    and c: "13 \<notin> set h" "13 \<notin> set dl"
    by blast
  have "13 \<notin> set (h @ 10 # dl)" using c by simp
  from insertLine_absent [OF assms(1,2) b this]
  have "insertLine v d doc = Inr (doc @ [asc ''## References''] @ split 10 (h @ 10 # dl) @ [[]])" .
  moreover have "length (split 10 (h @ 10 # dl)) = 2"
    using n by (simp add: split_append split_no_sep)
  ultimately show ?thesis using b by blast
qed

lemma intro_lines: "split 10 (intro_header @ nl @ intro_detail) = [intro_header, intro_detail]"
  by (simp add: intro_header_def intro_detail_def nl_def asc_def)

text \<open>
  A note that ends in an empty line: here the heading does come after a blank line.
\<close>

theorem C8_blank_line_witness:
  "insertLine no_vault intro_to_rust [asc ''Notes'', []] =
     Inr [asc ''Notes'', [], asc ''## References'', intro_header, intro_detail, []]"
proof -
  have a: "wf_doc [asc ''Notes'', []]" by (simp add: wf_doc_def asc_def)
  have b: "\<not> test rx_references (getValue [asc ''Notes'', []])"
    by (simp add: rx_references_def test_lit getValue_def asc_def)
  have c: "0 \<le> stars intro_to_rust" "stars intro_to_rust \<le> 5"
    "10 \<notin> set (title intro_to_rust @ url intro_to_rust)"
    "13 \<notin> set (title intro_to_rust @ url intro_to_rust)"
    by (simp_all add: intro_to_rust_def asc_def)
  from C8_missing_heading_is_appended [OF a b c, of no_vault]
  show ?thesis by (simp add: buildLine_intro_to_rust intro_lines)
qed

text \<open>
  The claim has the heading preceded by a blank line.  In a note whose last line is not
  empty, it is not: after \<^verbatim>\<open>Notes\<close> comes the heading at once.
\<close>

theorem C8_no_blank_line_counterexample:
  "wf_doc [asc ''Notes''] \<and> \<not> test rx_references (getValue [asc ''Notes'']) \<and>
   insertLine no_vault intro_to_rust [asc ''Notes''] =
     Inr [asc ''Notes'', asc ''## References'', intro_header, intro_detail, []] \<and>
   trim (asc ''Notes'') \<noteq> []"
proof -
  have a: "wf_doc [asc ''Notes'']" by (simp add: wf_doc_def asc_def)
  have b: "\<not> test rx_references (getValue [asc ''Notes''])"
    by (simp add: rx_references_def test_lit getValue_def asc_def)
  have "13 \<notin> set (intro_header @ nl @ intro_detail)"
    by (simp add: intro_header_def intro_detail_def nl_def asc_def)
  moreover have "trim (asc ''Notes'') \<noteq> []" by (simp add: trim_def asc_def isSpace_def)
  ultimately show ?thesis
    using insertLine_absent [OF a b buildLine_intro_to_rust] a b by (simp add: intro_lines)
qed








section \<open>The two commands on any record\<close>

lemma trim_Cons:
  "\<not> isSpace a \<Longrightarrow> trim (a # r) = a # rev (dropWhile isSpace (rev r))"
  by (simp add: trim_def dropWhile_append3)

text \<open>
  What the example shows for \<^verbatim>\<open>cycle-ref-status\<close> holds for the detail line of every
  record that \<^verbatim>\<open>buildLine\<close> encodes, wherever it stands in a document: the line starts with
  the icon of a type, so the command refuses it and leaves the document as it is.
\<close>

lemma cycle_ref_status_detail_line:
  assumes "buildLine v d = Inr span" and "getLine doc n = Some (last (split 10 span))"
  shows "cycle_ref_status True n doc = (doc, PlaceCursor)"
proof -
  let ?t = "getTypeInfo (type d)"
  obtain rating where rating: "starString (stars d) = Inr rating"
    using assms(1) by (cases "starString (stars d)") (simp_all add: buildLine_def Let_def)
  obtain a r where a: "icon ?t = a # r" "a \<noteq> 35" "\<not> isSpace a"
    using type_icon_first getTypeInfo_in [of "type d"] by blast
  from buildLine_detail [OF assms(1) rating] a(1)
  obtain r' where "last (split 10 span) = a # r'" by simp
  then have "\<not> startsWith (trim (last (split 10 span))) (asc ''###'')"
    using a(2,3) by (simp add: trim_Cons startsWith_def asc_def)
  with assms(2) show ?thesis by (simp add: cycle_ref_status_def)
qed

text \<open>
  Likewise for \<^verbatim>\<open>delete-reference\<close>: on a header line that is not the last line of the
  document, it removes that line and no other.
\<close>

lemma offset_join:
  "A \<noteq> [] \<Longrightarrow> sum_list (map (\<lambda>l. Suc (length l)) A) = Suc (length (join sep A))"
  by (induction sep A rule: join.induct) simp_all

lemma join_Cons: "B \<noteq> [] \<Longrightarrow> join sep (l # B) = l @ sep # join sep B"
  by (cases B) simp_all

lemma delete_range:
  assumes "wf_doc doc" and "Suc k < length doc"
  shows "replaceRange [] (k, 0) (k + 1, 0) doc = take k doc @ drop (Suc k) doc"
proof -
  define A where "A = take k doc"
  define l where "l = doc ! k"
  define B where "B = drop (Suc k) doc"
  have doc: "doc = A @ l # B"
    using assms(2) by (simp add: A_def l_def B_def id_take_nth_drop [symmetric])
  have B: "B \<noteq> []" using assms(2) by (simp add: B_def)
  have lenA: "length A = k" using assms(2) by (simp add: A_def)
  have wf: "wf_doc (A @ B)" using assms(1) B by (simp add: doc wf_doc_def)
  have o1: "posToOffset doc (k, 0) = sum_list (map (\<lambda>l. Suc (length l)) A)"
    using assms(2) by (simp add: posToOffset_def A_def)
  have "take (Suc k) doc = A @ [l]" using lenA by (simp add: doc)
  then have o2: "posToOffset doc (Suc k, 0) = sum_list (map (\<lambda>l. Suc (length l)) A) + Suc (length l)"
    using assms(2) by (simp add: posToOffset_def)
  have "take (posToOffset doc (k, 0)) (getValue doc) @ drop (posToOffset doc (Suc k, 0)) (getValue doc) =
      getValue (A @ B)"
  proof (cases "A = []")
    case True
    have j: "getValue doc = (l @ [10]) @ join 10 B"
      using True B by (simp add: doc getValue_def join_Cons)
    have p: "posToOffset doc (k, 0) = 0" "posToOffset doc (Suc k, 0) = length (l @ [10])"
      using True by (simp_all add: o1 o2)
    show ?thesis unfolding p j by (simp add: True getValue_def)
  next
    case False
    have j: "getValue doc = (join 10 A @ [10]) @ (l @ [10]) @ join 10 B"
      using False B by (simp add: doc getValue_def join_append join_Cons)
    have p: "posToOffset doc (k, 0) = length (join 10 A @ [10])"
      "posToOffset doc (Suc k, 0) = length ((join 10 A @ [10]) @ (l @ [10]))"
      using False by (simp_all add: o1 o2 offset_join)
    have "take (length (join 10 A @ [10])) (getValue doc) = join 10 A @ [10]"
      unfolding j by simp
    moreover have "drop (length ((join 10 A @ [10]) @ (l @ [10]))) (getValue doc) = join 10 B"
      unfolding j by (simp only: append_assoc [symmetric] append_eq_conv_conj drop_all drop_append)
        simp
    ultimately show ?thesis
      unfolding p using False B by (simp add: getValue_def join_append)
  qed
  then have "replaceRange [] (k, 0) (k + 1, 0) doc = setValue (getValue (A @ B))"
    by (simp add: replaceRange_def)
  also have "\<dots> = A @ B" using wf by (rule wf_doc_setValue)
  finally show ?thesis by (simp add: A_def B_def)
qed

lemma delete_reference_one_line:
  assumes "wf_doc doc" and "Suc k < length doc" and "startsWith (trim (doc ! k)) (asc ''###'')"
  shows "delete_reference True k doc = (take k doc @ drop (Suc k) doc, ReferenceDeleted)"
  using assms delete_range [OF assms(1,2)] by (simp add: delete_reference_def getLine_def)

end
